theory Spec2Isabelle
  imports Main "HOL-Library.Signed_Division"
begin

section \<open>Data model of the task queue\<close>

text \<open>
  The embedding follows \<^verbatim>\<open>src/TaskQueue.cpp\<close>. Objects allocated with \<^verbatim>\<open>new\<close> live in
  an explicit store: an address is a natural number, the store maps the address of every
  live \<^verbatim>\<open>TaskDetails_lt\<close> to its fields, and \<^verbatim>\<open>delete\<close> removes the address from the
  store. Values of type \<^verbatim>\<open>int64_t\<close> are integers, and every sum or difference of two of
  them that the code computes is wrapped to 64 bits by \<open>int64\<close> below (signed overflow is
  undefined in C++; the compiled code wraps around). \<^verbatim>\<open>size_t\<close> values are natural numbers.

  Dereferencing an address that is not in the store is undefined in C++; a function below
  that meets one leaves the state as it is. The invariants of the threads together say
  that every address in the registry and every address a worker holds is in the store, so
  no run from the constructor takes such a branch. The two decrements of a \<^verbatim>\<open>size_t\<close> are
  the cursor's in \<open>eraseTask\<close>, guarded by the cursor being above an index, and the
  thread count's in \<open>leaveLoop\<close>, where the count is that of the workers still in
  their loop and hence positive (\<open>lifecycleInv\<close>).
\<close>

type_synonym addr = nat

text \<open>
  Modelled from the spec: the status record \<^verbatim>\<open>TaskStatus\<close> (declared in a header that is
  not among the sources): \<^verbatim>\<open>{taskID, message, paused, complete, rev}\<close>.
\<close>

record TaskStatus =
  statusTaskID :: int
  message :: string
  statusPaused :: bool
  complete :: bool
  statusRev :: int

text \<open>
  Modelled from the spec: the class \<^verbatim>\<open>Task\<close> (declared in a header that is not among the
  sources), reduced to what the queue reads from it: \<^verbatim>\<open>taskID()\<close>, \<^verbatim>\<open>paused()\<close>,
  \<^verbatim>\<open>timeoutMS()\<close>, \<^verbatim>\<open>timeoutMessage()\<close> and \<^verbatim>\<open>taskStatus()\<close>.
\<close>

record Task =
  taskID :: int
  paused :: bool
  timeoutMS :: int
  timeoutMessage :: string
  taskStatus :: TaskStatus

text \<open>
  Modelled from the spec: \<^verbatim>\<open>Task::setPaused(bool)\<close>, the setter that \<^verbatim>\<open>paused()\<close> reads back.
\<close>

definition setPaused :: "bool \<Rightarrow> Task \<Rightarrow> Task" where
  "setPaused b t = t\<lparr>paused := b\<rparr>"

datatype RunAgain = Yes | No

record TaskDetails_lt =
  task :: Task
  nextRun :: int
  active :: bool

text \<open>
  What the queue does to the outside, in the order it does it: the calls into a task whose
  effect lies in the task (the task is named by the address of its \<^verbatim>\<open>TaskDetails_lt\<close>), the
  operations on the wait conditions, every invocation of \<^verbatim>\<open>taskStatusChanged()\<close> (which calls
  each subscribed callback once), and every \<^verbatim>\<open>delete\<close> of a \<^verbatim>\<open>TaskDetails_lt\<close>.
\<close>

datatype event =
    SetTaskQueue addr
  | SetStatusChangedCallback addr
  | CancelTask addr
  | SetPaused addr bool
  | PerformTask addr
  | UpdateTaskStatus addr TaskStatus
  | Delete addr
  | WakeOne
  | WakeAll
  | Wait int
  | ThreadFinishedWakeAll
  | TaskStatusChanged

text \<open>The fields of \<^verbatim>\<open>TaskQueue::Private\<close> (mutexes, conditions and thread handles left out).\<close>

record Private =
  tasks :: "addr list"
  nextTaskIndex :: nat
  workDone :: bool
  waitFor :: int
  taskStatuses :: "TaskStatus list"
  numberOfTaskThreads :: nat
  numberOfActiveTaskThreads :: nat
  finish :: bool

record state = Private +
  heap :: "addr \<rightharpoonup> TaskDetails_lt"
  trace :: "event list"

definition INT64_MAX :: int where
  "INT64_MAX = 9223372036854775807"

definition INT64_MIN :: int where
  "INT64_MIN = - 9223372036854775808"

text \<open>
  The value that 64-bit two's complement arithmetic gives for the exact result \<open>i\<close>: the
  integer between \<^verbatim>\<open>INT64_MIN\<close> and \<^verbatim>\<open>INT64_MAX\<close> that differs from \<open>i\<close> by a
  multiple of \<open>2 ^ 64\<close>.
\<close>

definition int64 :: "int \<Rightarrow> int" where
  "int64 i = (i + 9223372036854775808) mod 18446744073709551616 - 9223372036854775808"

definition emit :: "event list \<Rightarrow> state \<Rightarrow> state" where
  "emit es s = s\<lparr>trace := trace s @ es\<rparr>"

subsection \<open>\<^verbatim>\<open>std::to_string\<close> on \<^verbatim>\<open>int64_t\<close>\<close>

fun digits :: "nat \<Rightarrow> string" where
  "digits n =
     (if n < 10 then [''0123456789'' ! n]
      else digits (n div 10) @ [''0123456789'' ! (n mod 10)])"

declare digits.simps [simp del]

definition to_string :: "int \<Rightarrow> string" where
  "to_string i = (if i < 0 then CHR ''-'' # digits (nat (- i)) else digits (nat i))"

section \<open>The change notifier\<close>

definition taskStatusChanged :: "state \<Rightarrow> state" where
  "taskStatusChanged s = emit [TaskStatusChanged] s"

section \<open>The housekeeping sweep: \<^verbatim>\<open>updateWaitingMessages\<close>\<close>

text \<open>
  The inner loop over \<^verbatim>\<open>taskStatuses\<close>: the first status with the task's id gets the
  message, \<^verbatim>\<open>changed\<close> becomes true, and the loop breaks.
\<close>

fun setWaitingMessage :: "Task \<Rightarrow> int \<Rightarrow> TaskStatus list \<Rightarrow> bool \<Rightarrow> TaskStatus list \<times> bool" where
  "setWaitingMessage t timeToRun [] changed = ([], changed)"
| "setWaitingMessage t timeToRun (ts # tss) changed =
     (if statusTaskID ts = taskID t then
        (ts\<lparr>message :=
              (if statusPaused ts then ''Paused.''
               else if timeToRun = 0 then ''Waiting for thread.''
               else timeoutMessage t @ to_string timeToRun)\<rparr> # tss, True)
      else (case setWaitingMessage t timeToRun tss changed of
              (tss', changed') \<Rightarrow> (ts # tss', changed')))"

text \<open>
  The body of the outer loop for the entry at address \<open>p\<close>, with \<open>now\<close> the value
  \<^verbatim>\<open>currentTimeMS()\<close> returns there. The division is C++'s, truncating towards zero.
\<close>

definition updateWaitingMessage :: "int \<Rightarrow> addr \<Rightarrow> state \<times> bool \<Rightarrow> state \<times> bool" where
  "updateWaitingMessage now p sc =
     (case sc of (s, changed) \<Rightarrow>
        (case heap s p of
           None \<Rightarrow> (s, changed)
         | Some td \<Rightarrow>
             if \<not> active td \<and> (nextRun td > 0 \<or> paused (task td)) then
               (let timeToRun = int64 (nextRun td - now);
                    td' = (if timeToRun < 0 then td\<lparr>nextRun := 0\<rparr> else td);
                    timeToRun' = max 0 (timeToRun sdiv 1000)
                in case setWaitingMessage (task td) timeToRun' (taskStatuses s) changed of
                     (tss, changed') \<Rightarrow>
                       (s\<lparr>taskStatuses := tss, heap := (heap s)(p \<mapsto> td')\<rparr>, changed'))
             else (s, changed)))"

text \<open>
  The outer loop over \<^verbatim>\<open>tasks\<close>; \<open>clock i\<close> is the time read while the entry at position
  \<open>i\<close> of the list is handled.
\<close>

fun updateWaitingMessagesLoop ::
  "(nat \<Rightarrow> int) \<Rightarrow> nat \<Rightarrow> addr list \<Rightarrow> state \<times> bool \<Rightarrow> state \<times> bool" where
  "updateWaitingMessagesLoop clock i [] sc = sc"
| "updateWaitingMessagesLoop clock i (p # ps) sc =
     updateWaitingMessagesLoop clock (Suc i) ps (updateWaitingMessage (clock i) p sc)"

definition updateWaitingMessages :: "(nat \<Rightarrow> int) \<Rightarrow> state \<Rightarrow> state" where
  "updateWaitingMessages clock s =
     (case updateWaitingMessagesLoop clock 0 (tasks s) (s, False) of
        (s', changed) \<Rightarrow> if changed then taskStatusChanged s' else s')"

section \<open>Submission: \<^verbatim>\<open>addTask\<close> and the status callback it installs\<close>

text \<open>
  The loop of the callback over \<^verbatim>\<open>taskStatuses\<close>: the first status with the pushed id is
  overwritten by the pushed status, its \<^verbatim>\<open>rev\<close> put back, and the loop breaks.
\<close>

fun overwriteStatus :: "TaskStatus \<Rightarrow> TaskStatus list \<Rightarrow> TaskStatus list" where
  "overwriteStatus pushed [] = []"
| "overwriteStatus pushed (ts # tss) =
     (if statusTaskID ts = statusTaskID pushed then pushed\<lparr>statusRev := statusRev ts\<rparr> # tss
      else ts # overwriteStatus pushed tss)"

definition statusChangedCallback :: "TaskStatus \<Rightarrow> state \<Rightarrow> state" where
  "statusChangedCallback pushed s =
     taskStatusChanged (s\<lparr>taskStatuses := overwriteStatus pushed (taskStatuses s)\<rparr>)"

text \<open>
  \<open>now\<close> is the value of \<^verbatim>\<open>currentTimeMS()\<close>, \<open>p\<close> the address that
  \<^verbatim>\<open>new TaskDetails_lt()\<close> returns.
\<close>

definition addTask :: "int \<Rightarrow> addr \<Rightarrow> Task \<Rightarrow> state \<Rightarrow> state" where
  "addTask now p t s =
     (let s1 = emit [SetTaskQueue p] s;
          taskDetails = \<lparr>task = t, nextRun = int64 (now + timeoutMS t), active = False\<rparr>;
          s2 = s1\<lparr>tasks := tasks s1 @ [p], heap := (heap s1)(p \<mapsto> taskDetails)\<rparr>;
          s3 = emit [WakeOne] s2;
          s4 = s3\<lparr>taskStatuses := taskStatuses s3 @ [taskStatus (task taskDetails)]\<rparr>;
          s5 = emit [SetStatusChangedCallback p] s4
      in taskStatusChanged s5)"

section \<open>\<^verbatim>\<open>cancelTask\<close>, \<^verbatim>\<open>pauseTask\<close>, \<^verbatim>\<open>togglePauseTask\<close>\<close>

text \<open>Each is a loop over \<^verbatim>\<open>tasks\<close> that stops at the first entry with the id.\<close>

fun cancelTaskLoop :: "int \<Rightarrow> addr list \<Rightarrow> state \<Rightarrow> state" where
  "cancelTaskLoop tid [] s = s"
| "cancelTaskLoop tid (p # ps) s =
     (case heap s p of
        None \<Rightarrow> cancelTaskLoop tid ps s
      | Some td \<Rightarrow>
          if taskID (task td) = tid then emit [WakeAll] (emit [CancelTask p] s)
          else cancelTaskLoop tid ps s)"

definition cancelTask :: "int \<Rightarrow> state \<Rightarrow> state" where
  "cancelTask tid s = cancelTaskLoop tid (tasks s) s"

fun pauseTaskLoop :: "int \<Rightarrow> bool \<Rightarrow> addr list \<Rightarrow> state \<Rightarrow> state" where
  "pauseTaskLoop tid b [] s = s"
| "pauseTaskLoop tid b (p # ps) s =
     (case heap s p of
        None \<Rightarrow> pauseTaskLoop tid b ps s
      | Some td \<Rightarrow>
          if taskID (task td) = tid then
            emit [WakeAll]
              (emit [SetPaused p b] (s\<lparr>heap := (heap s)(p \<mapsto> td\<lparr>task := setPaused b (task td)\<rparr>)\<rparr>))
          else pauseTaskLoop tid b ps s)"

definition pauseTask :: "int \<Rightarrow> bool \<Rightarrow> state \<Rightarrow> state" where
  "pauseTask tid b s = pauseTaskLoop tid b (tasks s) s"

fun togglePauseTaskLoop :: "int \<Rightarrow> addr list \<Rightarrow> state \<Rightarrow> state" where
  "togglePauseTaskLoop tid [] s = s"
| "togglePauseTaskLoop tid (p # ps) s =
     (case heap s p of
        None \<Rightarrow> togglePauseTaskLoop tid ps s
      | Some td \<Rightarrow>
          if taskID (task td) = tid then
            emit [WakeAll]
              (emit [SetPaused p (\<not> paused (task td))]
                 (s\<lparr>heap := (heap s)(p \<mapsto> td\<lparr>task := setPaused (\<not> paused (task td)) (task td)\<rparr>)\<rparr>))
          else togglePauseTaskLoop tid ps s)"

definition togglePauseTask :: "int \<Rightarrow> state \<Rightarrow> state" where
  "togglePauseTask tid s = togglePauseTaskLoop tid (tasks s) s"

section \<open>The worker loop of \<^verbatim>\<open>addThreads\<close>\<close>

text \<open>
  What a worker does after a part of its loop: go back to the loop's head (\<open>Continue\<close>
  after a skipped entry, \<open>Resweep\<close> after the end of the list with work done), run the
  task of an entry outside the lock, wait on the wait condition, or leave the loop.
\<close>

datatype outcome = Continue | Resweep | Dispatch addr | Sleep int | Exit

text \<open>Lines 199 to 210: the end of the list.\<close>

definition endOfSweep :: "state \<Rightarrow> outcome \<times> state" where
  "endOfSweep s =
     (if nextTaskIndex s \<ge> length (tasks s) then
        (let w = waitFor s;
             s1 = s\<lparr>nextTaskIndex := 0, waitFor := INT64_MAX\<rparr>
         in if \<not> workDone s1 then (Sleep w, emit [Wait w] s1)
            else (Resweep, s1\<lparr>workDone := False\<rparr>))
      else (Continue, s))"

text \<open>After the loop: the worker counts itself out and signals.\<close>

definition leaveLoop :: "state \<Rightarrow> state" where
  "leaveLoop s =
     emit [ThreadFinishedWakeAll] (s\<lparr>numberOfActiveTaskThreads := numberOfActiveTaskThreads s - 1\<rparr>)"

text \<open>
  Lines 129 to 155, under the lock: one pass from the loop's head to the next
  \<^verbatim>\<open>continue\<close>, to the \<^verbatim>\<open>unlock\<close> before \<^verbatim>\<open>performTask\<close>, or through the end of the list.
\<close>

definition workerIteration :: "int \<Rightarrow> state \<Rightarrow> outcome \<times> state" where
  "workerIteration now s =
     (if finish s then (Exit, leaveLoop s)
      else if numberOfActiveTaskThreads s > numberOfTaskThreads s then (Exit, leaveLoop s)
      else if nextTaskIndex s < length (tasks s) then
        (let p = tasks s ! nextTaskIndex s;
             s1 = s\<lparr>nextTaskIndex := nextTaskIndex s + 1\<rparr>
         in case heap s1 p of
              None \<Rightarrow> (Continue, s1)
            | Some td \<Rightarrow>
                if active td then (Continue, s1)
                else if paused (task td) then (Continue, s1)
                else
                  (let timeToRun = int64 (nextRun td - now);
                       s2 = (if timeToRun < waitFor s1 then s1\<lparr>waitFor := timeToRun\<rparr> else s1)
                   in if timeToRun > 0 then (Continue, s2)
                      else (Dispatch p, s2\<lparr>heap := (heap s2)(p \<mapsto> td\<lparr>active := True\<rparr>)\<rparr>)))
      else endOfSweep s)"

text \<open>Lines 156 and 157, outside the lock: the flag, then the call.\<close>

definition beginPerformTask :: "addr \<Rightarrow> state \<Rightarrow> state" where
  "beginPerformTask p s = emit [PerformTask p] (s\<lparr>workDone := True\<rparr>)"

text \<open>\<^verbatim>\<open>std::find\<close>: the position of the first occurrence, the length when there is none.\<close>

fun findIndex :: "'a \<Rightarrow> 'a list \<Rightarrow> nat" where
  "findIndex x [] = 0"
| "findIndex x (y # ys) = (if y = x then 0 else Suc (findIndex x ys))"

text \<open>Lines 162 to 170: the entry leaves the list, the cursor follows.\<close>

definition eraseTask :: "addr \<Rightarrow> state \<Rightarrow> state" where
  "eraseTask p s =
     (let i = findIndex p (tasks s)
      in if i \<noteq> length (tasks s) then
           (let s1 = (if i < nextTaskIndex s then s\<lparr>nextTaskIndex := nextTaskIndex s - 1\<rparr> else s)
            in s1\<lparr>tasks := take i (tasks s1) @ drop (Suc i) (tasks s1)\<rparr>)
         else s)"

text \<open>Lines 172 to 182: the first status with the id leaves \<^verbatim>\<open>taskStatuses\<close>.\<close>

fun removeTaskStatus :: "int \<Rightarrow> TaskStatus list \<Rightarrow> TaskStatus list" where
  "removeTaskStatus tid [] = []"
| "removeTaskStatus tid (ts # tss) =
     (if statusTaskID ts = tid then tss else ts # removeTaskStatus tid tss)"

text \<open>
  Lines 160 to 196 without the part outside the lock; \<open>p\<close> is the worker's
  \<^verbatim>\<open>taskDetails\<close>, \<open>runAgain\<close> what \<^verbatim>\<open>performTask\<close> returned. The result says whether the
  entry was removed, so that the worker goes on with \<open>finishTask\<close>.
\<close>

definition afterPerformTask :: "int \<Rightarrow> RunAgain \<Rightarrow> addr \<Rightarrow> state \<Rightarrow> bool \<times> state" where
  "afterPerformTask now runAgain p s =
     (case heap s p of
        None \<Rightarrow> (False, s)
      | Some td \<Rightarrow>
          if timeoutMS (task td) < 1 \<or> runAgain = No then
            (let s1 = eraseTask p s
             in (True, s1\<lparr>taskStatuses := removeTaskStatus (taskID (task td)) (taskStatuses s1)\<rparr>))
          else
            (let td1 = (if timeoutMS (task td) > 0
                        then td\<lparr>nextRun := int64 (now + timeoutMS (task td))\<rparr> else td)
             in (False, s\<lparr>heap := (heap s)(p \<mapsto> td1\<lparr>active := False\<rparr>)\<rparr>)))"

text \<open>Lines 185 to 188, outside the lock: the last status is delivered, the entry deleted.\<close>

definition finishTask :: "addr \<Rightarrow> state \<Rightarrow> state" where
  "finishTask p s =
     (case heap s p of
        None \<Rightarrow> s
      | Some td \<Rightarrow>
          (let taskStatus1 = (taskStatus (task td))\<lparr>complete := True\<rparr>;
               s1 = emit [UpdateTaskStatus p taskStatus1] s
           in emit [Delete p] (s1\<lparr>heap := (heap s1)(p := None)\<rparr>)))"

section \<open>Construction and the status view\<close>

text \<open>The constructor of \<^verbatim>\<open>Private\<close>, with the default member initialisers.\<close>

definition newPrivate :: "nat \<Rightarrow> state" where
  "newPrivate nThreads =
     \<lparr>tasks = [], nextTaskIndex = 0, workDone = False, waitFor = INT64_MAX, taskStatuses = [],
      numberOfTaskThreads = nThreads, numberOfActiveTaskThreads = 0, finish = False,
      heap = Map.empty, trace = []\<rparr>"

definition viewTaskStatus :: "(TaskStatus list \<Rightarrow> 'a) \<Rightarrow> state \<Rightarrow> 'a" where
  "viewTaskStatus closure s = closure (taskStatuses s)"

section \<open>Concrete queues\<close>

text \<open>A task with the given id and repeat interval whose status carries the given revision.\<close>

definition sampleTask :: "int \<Rightarrow> int \<Rightarrow> int \<Rightarrow> Task" where
  "sampleTask tid ms r =
     \<lparr>taskID = tid, paused = False, timeoutMS = ms, timeoutMessage = ''Next run in '',
      taskStatus = \<lparr>statusTaskID = tid, message = ''Starting.'', statusPaused = False,
                    complete = False, statusRev = r\<rparr>\<rparr>"

text \<open>
  A queue at time 1000 after the submission of task 5, which repeats every 2500 ms and sits
  at address 0, and the queue after the submission of task 7, which runs once and sits at
  address 1.
\<close>

definition oneTask :: state where
  "oneTask = addTask 1000 0 (sampleTask 5 2500 4) (newPrivate 2)"

definition twoTasks :: state where
  "twoTasks = addTask 1000 1 (sampleTask 7 0 3) oneTask"

text \<open>A status that task 7 pushes through its callback.\<close>

definition samplePush :: TaskStatus where
  "samplePush = \<lparr>statusTaskID = 7, message = ''Half way.'', statusPaused = False,
                  complete = False, statusRev = 0\<rparr>"

section \<open>Notions used to state what the housekeeping sweep does\<close>

text \<open>The entries the sweep looks at: not active, and paused or with a positive \<open>nextRun\<close>.\<close>

definition waitingEntry :: "TaskDetails_lt \<Rightarrow> bool" where
  "waitingEntry td \<longleftrightarrow> \<not> active td \<and> (0 < nextRun td \<or> paused (task td))"

text \<open>The entry after the sweep has passed it at time \<open>now\<close>.\<close>

definition sweptEntry :: "int \<Rightarrow> TaskDetails_lt \<Rightarrow> TaskDetails_lt" where
  "sweptEntry now td =
     (if waitingEntry td \<and> int64 (nextRun td - now) < 0 then td\<lparr>nextRun := 0\<rparr> else td)"

text \<open>
  A clock that reads 1100 throughout a sweep, one that reads 3100, and the queue after one
  sweep at the later time.
\<close>

definition sampleClock :: "nat \<Rightarrow> int" where
  "sampleClock i = 1100"

definition lateClock :: "nat \<Rightarrow> int" where
  "lateClock i = 3100"

definition sweptOnce :: state where
  "sweptOnce = updateWaitingMessages lateClock twoTasks"

text \<open>
  The queue \<open>twoTasks\<close> after task 5 has pushed, through its callback, a status that is
  marked paused, and the queue \<open>twoTasks\<close> after task 7 has been paused through
  \<^verbatim>\<open>pauseTask\<close>.
\<close>

definition pausedPush :: TaskStatus where
  "pausedPush = \<lparr>statusTaskID = 5, message = ''Holding.'', statusPaused = True,
                  complete = False, statusRev = 0\<rparr>"

definition markedPaused :: state where
  "markedPaused = statusChangedCallback pausedPush twoTasks"

definition pausedEntry :: state where
  "pausedEntry = pauseTask 7 True twoTasks"

section \<open>The pool: \<^verbatim>\<open>addThreads\<close> and \<^verbatim>\<open>setNumberOfTaskThreads\<close>\<close>

text \<open>
  The outer loop of \<^verbatim>\<open>addThreads\<close>: each pass counts one more active thread and starts it.
  The second component counts the threads started.
\<close>

function addThreadsLoop :: "state \<Rightarrow> nat \<Rightarrow> state \<times> nat" where
  "addThreadsLoop s started =
     (if numberOfActiveTaskThreads s < numberOfTaskThreads s then
        addThreadsLoop (s\<lparr>numberOfActiveTaskThreads := numberOfActiveTaskThreads s + 1\<rparr>)
          (started + 1)
      else (s, started))"
  by pat_completeness auto
termination
  by (relation "measure (\<lambda>(s, started). numberOfTaskThreads s - numberOfActiveTaskThreads s)") auto

declare addThreadsLoop.simps [simp del]

definition addThreads :: "state \<Rightarrow> state \<times> nat" where
  "addThreads s = addThreadsLoop s 0"

definition setNumberOfTaskThreads :: "nat \<Rightarrow> state \<Rightarrow> state \<times> nat" where
  "setNumberOfTaskThreads n s =
     (case addThreads (s\<lparr>numberOfTaskThreads := n\<rparr>) of
        (s1, started) \<Rightarrow> (emit [WakeAll] s1, started))"

section \<open>The destructor\<close>

text \<open>Line 247, then lines 250 to 253 under the lock.\<close>

definition setFinish :: "state \<Rightarrow> state" where
  "setFinish s = s\<lparr>finish := True\<rparr>"

fun cancelTasks :: "addr list \<Rightarrow> state \<Rightarrow> state" where
  "cancelTasks [] s = s"
| "cancelTasks (p # ps) s = cancelTasks ps (emit [CancelTask p] s)"

definition destructorCancel :: "state \<Rightarrow> state" where
  "destructorCancel s = emit [WakeAll] (cancelTasks (tasks s) s)"

text \<open>Lines 261 to 265, after the workers have gone and the housekeeping thread is joined.\<close>

fun deleteTasks :: "addr list \<Rightarrow> state \<Rightarrow> state" where
  "deleteTasks [] s = s"
| "deleteTasks (p # ps) s = deleteTasks ps (emit [Delete p] (s\<lparr>heap := (heap s)(p := None)\<rparr>))"

definition destructorDelete :: "state \<Rightarrow> state" where
  "destructorDelete s = deleteTasks (tasks s) s"

section \<open>The threads together\<close>

text \<open>
  The queue is used by several threads. Every stretch of code that a thread runs holding
  the registry lock is one step of the whole; the stretches a worker runs between
  \<^verbatim>\<open>unlock\<close> and \<^verbatim>\<open>lock\<close> are steps of their own. Where a worker stands:
\<close>

datatype wstate =
    AtLoopHead        \<comment> \<open>at \<^verbatim>\<open>while(!finish)\<close>, with the lock or waiting for it or on the condition\<close>
  | Dispatched addr   \<comment> \<open>after the \<^verbatim>\<open>unlock\<close> of line 155\<close>
  | Running addr      \<comment> \<open>in \<^verbatim>\<open>performTask\<close>\<close>
  | Removed addr      \<comment> \<open>after the \<^verbatim>\<open>unlock\<close> of line 184\<close>
  | Relocking         \<comment> \<open>after the \<^verbatim>\<open>delete\<close> of line 188\<close>
  | Gone              \<comment> \<open>after line 213\<close>

text \<open>How far the destructor has come.\<close>

datatype phase = Alive | FinishSet | Waiting | Joining | Destroyed

text \<open>
  \<open>created\<close> lists the addresses that \<^verbatim>\<open>new TaskDetails_lt()\<close> has returned: an address
  names one object and is not used again.
\<close>

record config =
  shared :: state
  workers :: "wstate list"
  adminRunning :: bool
  destructor :: phase
  created :: "addr list"

text \<open>The constructor: the pool is filled, the housekeeping thread started.\<close>

definition construct :: "nat \<Rightarrow> config" where
  "construct nThreads =
     (case addThreads (newPrivate nThreads) of
        (s, started) \<Rightarrow>
          \<lparr>shared = s, workers = replicate started AtLoopHead, adminRunning = True,
           destructor = Alive, created = []\<rparr>)"

text \<open>The ids of the tasks of the live entries.\<close>

definition liveIDs :: "config \<Rightarrow> int list" where
  "liveIDs c =
     List.map_filter (\<lambda>p. map_option (\<lambda>td. taskID (task td)) (heap (shared c) p)) (created c)"

text \<open>
  What can happen. The calls of the interface come from threads that own the queue, so
  they happen before the destructor starts; a submitted task is a new object with an id
  that no live task has. A task may change what it reports, but not its id. A status
  push may come from any task at any time. The housekeeping thread sweeps until it sees
  \<open>finish\<close>. A worker is named by its position in \<open>workers\<close>.
\<close>

datatype action =
    Submit int addr Task
  | Cancel int
  | Pause int bool
  | TogglePause int
  | Resize nat
  | Push TaskStatus
  | TaskChanges addr Task
  | Housekeep "nat \<Rightarrow> int"
  | AdminLeaves
  | Scan nat int
  | Begin nat
  | Return nat RunAgain int
  | Finish nat
  | Relock nat
  | DestroyStart
  | DestroyCancel
  | DestroyWorkersGone
  | DestroyDelete

definition scanStep :: "nat \<Rightarrow> int \<Rightarrow> config \<Rightarrow> config" where
  "scanStep w now c =
     (case workerIteration now (shared c) of
        (out, s) \<Rightarrow>
          c\<lparr>shared := s,
            workers := (workers c)[w := (case out of Dispatch p \<Rightarrow> Dispatched p
                                          | Exit \<Rightarrow> Gone
                                          | _ \<Rightarrow> AtLoopHead)]\<rparr>)"

definition returnStep :: "nat \<Rightarrow> RunAgain \<Rightarrow> int \<Rightarrow> addr \<Rightarrow> config \<Rightarrow> config" where
  "returnStep w runAgain now p c =
     (case afterPerformTask now runAgain p (shared c) of
        (True, s) \<Rightarrow> c\<lparr>shared := s, workers := (workers c)[w := Removed p]\<rparr>
      | (False, s) \<Rightarrow> c\<lparr>shared := snd (endOfSweep s), workers := (workers c)[w := AtLoopHead]\<rparr>)"

fun step :: "action \<Rightarrow> config \<Rightarrow> config option" where
  "step (Submit now p t) c =
     (if destructor c = Alive \<and> p \<notin> set (created c) \<and> taskID t \<notin> set (liveIDs c)
      then Some (c\<lparr>shared := addTask now p t (shared c), created := p # created c\<rparr>)
      else None)"
| "step (Cancel tid) c =
     (if destructor c = Alive then Some (c\<lparr>shared := cancelTask tid (shared c)\<rparr>) else None)"
| "step (Pause tid b) c =
     (if destructor c = Alive then Some (c\<lparr>shared := pauseTask tid b (shared c)\<rparr>) else None)"
| "step (TogglePause tid) c =
     (if destructor c = Alive then Some (c\<lparr>shared := togglePauseTask tid (shared c)\<rparr>) else None)"
| "step (Resize n) c =
     (if destructor c = Alive then
        (case setNumberOfTaskThreads n (shared c) of
           (s, started) \<Rightarrow>
             Some (c\<lparr>shared := s, workers := workers c @ replicate started AtLoopHead\<rparr>))
      else None)"
| "step (Push pushed) c =
     (if destructor c \<noteq> Destroyed then Some (c\<lparr>shared := statusChangedCallback pushed (shared c)\<rparr>)
      else None)"
| "step (TaskChanges p t) c =
     (case heap (shared c) p of
        None \<Rightarrow> None
      | Some td \<Rightarrow>
          if taskID t = taskID (task td)
          then Some (c\<lparr>shared := (shared c)\<lparr>heap := (heap (shared c))(p \<mapsto> td\<lparr>task := t\<rparr>)\<rparr>\<rparr>)
          else None)"
| "step (Housekeep clock) c =
     (if adminRunning c then Some (c\<lparr>shared := updateWaitingMessages clock (shared c)\<rparr>)
      else None)"
| "step AdminLeaves c =
     (if adminRunning c \<and> finish (shared c) then Some (c\<lparr>adminRunning := False\<rparr>) else None)"
| "step (Scan w now) c =
     (if w < length (workers c) \<and> workers c ! w = AtLoopHead then Some (scanStep w now c)
      else None)"
| "step (Begin w) c =
     (if w < length (workers c) then
        (case workers c ! w of
           Dispatched p \<Rightarrow>
             Some (c\<lparr>shared := beginPerformTask p (shared c),
                     workers := (workers c)[w := Running p]\<rparr>)
         | _ \<Rightarrow> None)
      else None)"
| "step (Return w runAgain now) c =
     (if w < length (workers c) then
        (case workers c ! w of
           Running p \<Rightarrow> Some (returnStep w runAgain now p c)
         | _ \<Rightarrow> None)
      else None)"
| "step (Finish w) c =
     (if w < length (workers c) then
        (case workers c ! w of
           Removed p \<Rightarrow>
             Some (c\<lparr>shared := finishTask p (shared c), workers := (workers c)[w := Relocking]\<rparr>)
         | _ \<Rightarrow> None)
      else None)"
| "step (Relock w) c =
     (if w < length (workers c) \<and> workers c ! w = Relocking
      then Some (c\<lparr>shared := snd (endOfSweep (shared c)),
                   workers := (workers c)[w := AtLoopHead]\<rparr>)
      else None)"
| "step DestroyStart c =
     (if destructor c = Alive
      then Some (c\<lparr>shared := setFinish (shared c), destructor := FinishSet\<rparr>)
      else None)"
| "step DestroyCancel c =
     (if destructor c = FinishSet
      then Some (c\<lparr>shared := destructorCancel (shared c), destructor := Waiting\<rparr>)
      else None)"
| "step DestroyWorkersGone c =
     (if destructor c = Waiting \<and> numberOfActiveTaskThreads (shared c) = 0
      then Some (c\<lparr>destructor := Joining\<rparr>)
      else None)"
| "step DestroyDelete c =
     (if destructor c = Joining \<and> \<not> adminRunning c
      then Some (c\<lparr>shared := destructorDelete (shared c), destructor := Destroyed\<rparr>)
      else None)"

text \<open>A run: the actions one after the other; \<open>None\<close> when one of them cannot happen.\<close>

fun run :: "action list \<Rightarrow> config \<Rightarrow> config option" where
  "run [] c = Some c"
| "run (a # as) c = (case step a c of None \<Rightarrow> None | Some c' \<Rightarrow> run as c')"

text \<open>The addresses deleted so far, in the order of the deletions.\<close>

fun deleted :: "event list \<Rightarrow> addr list" where
  "deleted [] = []"
| "deleted (Delete p # es) = p # deleted es"
| "deleted (e # es) = deleted es"

section \<open>Dispatch sweeps of the threads together\<close>







text \<open>The waits on the wait condition among the events.\<close>

fun isWait :: "event \<Rightarrow> bool" where
  "isWait (Wait w) = True"
| "isWait _ = False"


section \<open>Invariants of the threads together\<close>

text \<open>What the invariants read of an entry: whether it is live and active, and its task's id.\<close>

definition entryActive :: "state \<Rightarrow> addr \<Rightarrow> bool option" where
  "entryActive s p = map_option active (heap s p)"

definition entryID :: "state \<Rightarrow> addr \<Rightarrow> int option" where
  "entryID s p = map_option (\<lambda>td. taskID (task td)) (heap s p)"

text \<open>A worker holds an entry from its dispatch to the end of its bookkeeping under the lock.\<close>

definition holds :: "wstate \<Rightarrow> addr \<Rightarrow> bool" where
  "holds x p \<longleftrightarrow> x = Dispatched p \<or> x = Running p"

definition owns :: "wstate \<Rightarrow> addr \<Rightarrow> bool" where
  "owns x p \<longleftrightarrow> holds x p \<or> x = Removed p"

text \<open>Where the worker at a position stands; there is no worker beyond the list.\<close>

definition workerAt :: "config \<Rightarrow> nat \<Rightarrow> wstate" where
  "workerAt c w = (if w < length (workers c) then workers c ! w else Gone)"

text \<open>
  The registry holds no address twice; the live entries are those of the registry and those
  a worker has removed and not yet deleted; the entries that workers hold are in the
  registry and active, every active entry of the registry is held, and no entry belongs
  to two workers.
\<close>

definition registryInv :: "config \<Rightarrow> bool" where
  "registryInv c \<longleftrightarrow>
     distinct (tasks (shared c))
   \<and> (\<forall>p. entryActive (shared c) p \<noteq> None \<longleftrightarrow>
            p \<in> set (tasks (shared c)) \<or> (\<exists>w. workerAt c w = Removed p))
   \<and> (\<forall>w p. workerAt c w = Removed p \<longrightarrow> p \<notin> set (tasks (shared c)))
   \<and> (\<forall>w p. holds (workerAt c w) p \<longrightarrow>
          p \<in> set (tasks (shared c)) \<and> entryActive (shared c) p = Some True)
   \<and> (\<forall>p\<in>set (tasks (shared c)). entryActive (shared c) p = Some True \<longrightarrow>
          (\<exists>w. holds (workerAt c w) p))
   \<and> (\<forall>w1 w2 p. owns (workerAt c w1) p \<and> owns (workerAt c w2) p \<longrightarrow> w1 = w2)"

text \<open>
  Every live entry was created; no address was deleted twice; the deleted addresses are
  the created ones that are not live.
\<close>

definition ownershipInv :: "config \<Rightarrow> bool" where
  "ownershipInv c \<longleftrightarrow>
     (\<forall>p. entryActive (shared c) p \<noteq> None \<longrightarrow> p \<in> set (created c))
   \<and> distinct (deleted (trace (shared c)))
   \<and> set (deleted (trace (shared c))) = {p \<in> set (created c). entryActive (shared c) p = None}"

text \<open>
  The count of active threads is the number of workers that have not gone; \<open>finish\<close> is set
  once the destructor has started; once the destructor has seen the count at zero every
  worker has gone; once it is done the housekeeping thread has left and no entry is live.
\<close>

definition lifecycleInv :: "config \<Rightarrow> bool" where
  "lifecycleInv c \<longleftrightarrow>
     numberOfActiveTaskThreads (shared c) = length (filter (\<lambda>x. x \<noteq> Gone) (workers c))
   \<and> (finish (shared c) \<longleftrightarrow> destructor c \<noteq> Alive)
   \<and> (destructor c = Joining \<or> destructor c = Destroyed \<longrightarrow> (\<forall>w. workerAt c w = Gone))
   \<and> (destructor c = Destroyed \<longrightarrow>
        \<not> adminRunning c \<and> (\<forall>p. entryActive (shared c) p = None))"

text \<open>No two live entries hold tasks with the same id.\<close>

definition idInv :: "config \<Rightarrow> bool" where
  "idInv c \<longleftrightarrow>
     (\<forall>p q i. entryID (shared c) p = Some i \<and> entryID (shared c) q = Some i \<longrightarrow> p = q)"

text \<open>The registry is gone with the queue, so its invariant ends with the destructor.\<close>

definition invariant :: "config \<Rightarrow> bool" where
  "invariant c \<longleftrightarrow>
     (destructor c \<noteq> Destroyed \<longrightarrow> registryInv c)
   \<and> ownershipInv c \<and> lifecycleInv c \<and> idInv c"

subsection \<open>The mirror and the registry\<close>

text \<open>
  A submission is \<^emph>\<open>honest\<close> when the status the task hands out carries the task's own id,
  which is what the claims about removal by id presuppose.  \<^verbatim>\<open>mirrorInv\<close> says that, until
  the destructor has deleted the entries, the mirror lists the ids of the registered tasks
  in registry order.
\<close>

fun honest :: "action \<Rightarrow> bool" where
  "honest (Submit now p t) \<longleftrightarrow> statusTaskID (taskStatus t) = taskID t"
| "honest _ \<longleftrightarrow> True"

definition mirrorInv :: "config \<Rightarrow> bool" where
  "mirrorInv c \<longleftrightarrow>
     (destructor c \<noteq> Destroyed \<longrightarrow>
        map Some (map statusTaskID (taskStatuses (shared c)))
          = map (entryID (shared c)) (tasks (shared c)))"

section \<open>Concrete runs\<close>

text \<open>
  Two workers; tasks 5 and 7 are submitted and, at time 4000, each worker takes one of them
  and runs it.
\<close>

definition busyRun :: "action list" where
  "busyRun = [Submit 1000 0 (sampleTask 5 2500 4), Submit 1000 1 (sampleTask 7 0 3),
              Scan 0 4000, Begin 0, Scan 1 4000, Begin 1]"







section \<open>Basic facts\<close>

lemma emit_simps [simp]:
  "trace (emit es s) = trace s @ es"
  "heap (emit es s) = heap s"
  "tasks (emit es s) = tasks s"
  "nextTaskIndex (emit es s) = nextTaskIndex s"
  "workDone (emit es s) = workDone s"
  "waitFor (emit es s) = waitFor s"
  "taskStatuses (emit es s) = taskStatuses s"
  "numberOfTaskThreads (emit es s) = numberOfTaskThreads s"
  "numberOfActiveTaskThreads (emit es s) = numberOfActiveTaskThreads s"
  "finish (emit es s) = finish s"
  by (simp_all add: emit_def)

lemma twoTasks_eq:
  "twoTasks =
     \<lparr>tasks = [0, 1], nextTaskIndex = 0, workDone = False, waitFor = INT64_MAX,
      taskStatuses = [taskStatus (sampleTask 5 2500 4), taskStatus (sampleTask 7 0 3)],
      numberOfTaskThreads = 2, numberOfActiveTaskThreads = 0, finish = False,
      heap = [0 \<mapsto> \<lparr>task = sampleTask 5 2500 4, nextRun = 3500, active = False\<rparr>,
              1 \<mapsto> \<lparr>task = sampleTask 7 0 3, nextRun = 1000, active = False\<rparr>],
      trace = [SetTaskQueue 0, WakeOne, SetStatusChangedCallback 0, TaskStatusChanged,
               SetTaskQueue 1, WakeOne, SetStatusChangedCallback 1, TaskStatusChanged]\<rparr>"
  by (simp add: twoTasks_def oneTask_def addTask_def newPrivate_def Let_def
      taskStatusChanged_def emit_def sampleTask_def int64_def)

lemma oneTask_eq:
  "oneTask =
     \<lparr>tasks = [0], nextTaskIndex = 0, workDone = False, waitFor = INT64_MAX,
      taskStatuses = [taskStatus (sampleTask 5 2500 4)],
      numberOfTaskThreads = 2, numberOfActiveTaskThreads = 0, finish = False,
      heap = [0 \<mapsto> \<lparr>task = sampleTask 5 2500 4, nextRun = 3500, active = False\<rparr>],
      trace = [SetTaskQueue 0, WakeOne, SetStatusChangedCallback 0, TaskStatusChanged]\<rparr>"
  by (simp add: oneTask_def addTask_def newPrivate_def Let_def taskStatusChanged_def
      emit_def sampleTask_def int64_def)

text \<open>Wrapping leaves a value that fits as it is, and always gives one that fits.\<close>

lemma int64_representable: "INT64_MIN \<le> i \<Longrightarrow> i \<le> INT64_MAX \<Longrightarrow> int64 i = i"
  by (simp add: int64_def INT64_MIN_def INT64_MAX_def)

lemma int64_range: "INT64_MIN \<le> int64 i \<and> int64 i \<le> INT64_MAX"
proof -
  have "0 \<le> (i + 9223372036854775808) mod 18446744073709551616"
    and "(i + 9223372036854775808) mod 18446744073709551616 < 18446744073709551616"
    by simp_all
  then show ?thesis by (simp add: int64_def INT64_MIN_def INT64_MAX_def)
qed

section \<open>Submission\<close>

text \<open>
  Claim C9. \<^verbatim>\<open>addTask\<close> first makes the queue the owner of the task, then appends to the
  registry a new entry holding the task with \<open>nextRun = now + timeoutMS\<close>, the sum taken
  in \<^verbatim>\<open>int64_t\<close>, and \<open>active = False\<close>, wakes one waiting worker (a single \<^verbatim>\<open>wakeOne\<close>),
  appends the task's status to the status mirror, installs the status callback and fires
  the change notifier once. Nothing else of the queue changes. Whenever the sum fits into
  an \<^verbatim>\<open>int64_t\<close>, \<open>nextRun\<close> is the sum itself.
\<close>

theorem addTask_submits:
  "addTask now p t s =
     s\<lparr>tasks := tasks s @ [p],
       taskStatuses := taskStatuses s @ [taskStatus t],
       heap := (heap s)(p \<mapsto> \<lparr>task = t, nextRun = int64 (now + timeoutMS t), active = False\<rparr>),
       trace := trace s @
         [SetTaskQueue p, WakeOne, SetStatusChangedCallback p, TaskStatusChanged]\<rparr>
   \<and> (INT64_MIN \<le> now + timeoutMS t \<and> now + timeoutMS t \<le> INT64_MAX \<longrightarrow>
        addTask now p t s =
          s\<lparr>tasks := tasks s @ [p],
            taskStatuses := taskStatuses s @ [taskStatus t],
            heap := (heap s)(p \<mapsto> \<lparr>task = t, nextRun = now + timeoutMS t, active = False\<rparr>),
            trace := trace s @
              [SetTaskQueue p, WakeOne, SetStatusChangedCallback p, TaskStatusChanged]\<rparr>)"
  by (simp add: addTask_def Let_def taskStatusChanged_def emit_def int64_representable)

text \<open>
  Task 5 submitted at time 1000 with an interval of 2500 ms is next due at 3500; with an
  interval of \<^verbatim>\<open>INT64_MAX\<close> the sum does not fit and wraps around.
\<close>

theorem addTask_submits_witness:
  "INT64_MIN \<le> 1000 + timeoutMS (sampleTask 5 2500 4)
   \<and> 1000 + timeoutMS (sampleTask 5 2500 4) \<le> INT64_MAX
   \<and> tasks (addTask 1000 0 (sampleTask 5 2500 4) (newPrivate 2)) = [0]
   \<and> taskStatuses (addTask 1000 0 (sampleTask 5 2500 4) (newPrivate 2))
        = [taskStatus (sampleTask 5 2500 4)]
   \<and> heap (addTask 1000 0 (sampleTask 5 2500 4) (newPrivate 2)) 0
        = Some \<lparr>task = sampleTask 5 2500 4, nextRun = 3500, active = False\<rparr>
   \<and> trace (addTask 1000 0 (sampleTask 5 2500 4) (newPrivate 2))
        = [SetTaskQueue 0, WakeOne, SetStatusChangedCallback 0, TaskStatusChanged]
   \<and> heap (addTask 1000 0 (sampleTask 5 INT64_MAX 4) (newPrivate 2)) 0
        = Some \<lparr>task = sampleTask 5 INT64_MAX 4, nextRun = - 9223372036854774809, active = False\<rparr>"
  using addTask_submits [of 1000 0 "sampleTask 5 2500 4" "newPrivate 2"]
    addTask_submits [of 1000 0 "sampleTask 5 INT64_MAX 4" "newPrivate 2"]
  by (simp add: newPrivate_def sampleTask_def INT64_MIN_def INT64_MAX_def int64_def)

section \<open>Removal from the registry and the cursor\<close>

lemma findIndex_le: "findIndex x xs \<le> length xs"
  by (induction xs) auto

lemma findIndex_less_iff: "findIndex x xs < length xs \<longleftrightarrow> x \<in> set xs"
  by (induction xs) auto

lemma findIndex_nth: "x \<in> set xs \<Longrightarrow> xs ! findIndex x xs = x"
  by (induction xs) auto

lemma findIndex_first: "k < findIndex x xs \<Longrightarrow> xs ! k \<noteq> x"
proof (induction xs arbitrary: k)
  case Nil
  then show ?case by simp
next
  case (Cons y ys)
  then show ?case by (cases k) (auto split: if_splits)
qed

lemma erase_remove1: "take (findIndex x xs) xs @ drop (Suc (findIndex x xs)) xs = remove1 x xs"
  by (induction xs) auto

lemma erase_drop_before:
  "findIndex x xs < c \<Longrightarrow>
   drop (c - 1) (take (findIndex x xs) xs @ drop (Suc (findIndex x xs)) xs) = drop c xs"
proof (induction xs arbitrary: c)
  case Nil
  then show ?case by simp
next
  case (Cons y ys)
  show ?case
  proof (cases "y = x")
    case True
    with Cons.prems show ?thesis by (cases c) auto
  next
    case False
    with Cons.prems obtain c' where c: "c = Suc c'" "findIndex x ys < c'" by (cases c) auto
    with Cons.IH[of c'] False show ?thesis by (cases c') auto
  qed
qed

lemma erase_drop_after:
  "c \<le> findIndex x xs \<Longrightarrow>
   drop c (take (findIndex x xs) xs @ drop (Suc (findIndex x xs)) xs) = remove1 x (drop c xs)"
proof (induction xs arbitrary: c)
  case Nil
  then show ?case by simp
next
  case (Cons y ys)
  show ?case
  proof (cases "y = x")
    case True
    with Cons.prems show ?thesis by auto
  next
    case False
    show ?thesis
    proof (cases c)
      case 0
      then show ?thesis using erase_remove1[of x "y # ys"] by simp
    next
      case (Suc c')
      with Cons.prems False have "c' \<le> findIndex x ys" by simp
      from Cons.IH[OF this] Suc False show ?thesis by simp
    qed
  qed
qed

lemma eraseTask_absent: "p \<notin> set (tasks s) \<Longrightarrow> eraseTask p s = s"
  using findIndex_less_iff[of p "tasks s"] findIndex_le[of p "tasks s"]
  by (auto simp: eraseTask_def Let_def)

text \<open>
  Claim C7. When the entry at address \<open>p\<close> is in the registry, \<^verbatim>\<open>std::find\<close> and
  \<^verbatim>\<open>erase\<close> take its first occurrence out of the list, and the cursor is decremented (by
  one) exactly when the index of the removed entry is strictly less than the cursor and is
  left as it is otherwise. The entries from the cursor on are the same as before, without
  the removed entry if it was among them: the cursor denotes the same next entry. The
  cursor does not exceed the new length by more than it exceeded the old one.
\<close>

theorem eraseTask_cursor:
  assumes "p \<in> set (tasks s)"
  shows "tasks (eraseTask p s) =
           take (findIndex p (tasks s)) (tasks s) @ drop (Suc (findIndex p (tasks s))) (tasks s)
    \<and> (Suc (nextTaskIndex (eraseTask p s)) = nextTaskIndex s
          \<longleftrightarrow> findIndex p (tasks s) < nextTaskIndex s)
    \<and> (nextTaskIndex (eraseTask p s) = nextTaskIndex s
          \<longleftrightarrow> \<not> findIndex p (tasks s) < nextTaskIndex s)
    \<and> drop (nextTaskIndex (eraseTask p s)) (tasks (eraseTask p s)) =
        (if findIndex p (tasks s) < nextTaskIndex s then drop (nextTaskIndex s) (tasks s)
         else remove1 p (drop (nextTaskIndex s) (tasks s)))
    \<and> nextTaskIndex (eraseTask p s)
          \<le> length (tasks (eraseTask p s)) + (nextTaskIndex s - length (tasks s))"
proof -
  let ?i = "findIndex p (tasks s)"
  from assms have i: "?i < length (tasks s)" by (simp add: findIndex_less_iff)
  show ?thesis
  proof (cases "?i < nextTaskIndex s")
    case True
    with i erase_drop_before[of p "tasks s" "nextTaskIndex s"] show ?thesis
      by (auto simp: eraseTask_def Let_def)
  next
    case False
    with i erase_drop_after[of "nextTaskIndex s" p "tasks s"] show ?thesis
      by (auto simp: eraseTask_def Let_def)
  qed
qed

theorem eraseTask_cursor_witness:
  "(0::nat) \<in> set (tasks (twoTasks\<lparr>nextTaskIndex := 1\<rparr>))
   \<and> tasks (eraseTask 0 (twoTasks\<lparr>nextTaskIndex := 1\<rparr>)) = [1]
   \<and> nextTaskIndex (eraseTask 0 (twoTasks\<lparr>nextTaskIndex := 1\<rparr>)) = 0
   \<and> drop (nextTaskIndex (eraseTask 0 (twoTasks\<lparr>nextTaskIndex := 1\<rparr>)))
        (tasks (eraseTask 0 (twoTasks\<lparr>nextTaskIndex := 1\<rparr>))) = [1]"
  using eraseTask_cursor [of 0 "twoTasks\<lparr>nextTaskIndex := 1\<rparr>"]
  by (simp add: twoTasks_eq)

section \<open>The status callback\<close>

lemma overwriteStatus_length [simp]: "length (overwriteStatus t tss) = length tss"
  by (induction tss) auto

lemma overwriteStatus_rev [simp]: "map statusRev (overwriteStatus t tss) = map statusRev tss"
  by (induction tss) auto

lemma overwriteStatus_ids [simp]: "map statusTaskID (overwriteStatus t tss) = map statusTaskID tss"
  by (induction tss) auto

lemma overwriteStatus_first:
  "j < length tss \<Longrightarrow> statusTaskID (tss ! j) = statusTaskID t \<Longrightarrow>
   \<forall>k<j. statusTaskID (tss ! k) \<noteq> statusTaskID t \<Longrightarrow>
   overwriteStatus t tss = tss[j := t\<lparr>statusRev := statusRev (tss ! j)\<rparr>]"
proof (induction tss arbitrary: j)
  case Nil
  then show ?case by simp
next
  case (Cons ts tss)
  show ?case
  proof (cases j)
    case 0
    with Cons.prems show ?thesis by simp
  next
    case (Suc j')
    from Cons.prems Suc have h: "statusTaskID ts \<noteq> statusTaskID t" by auto
    from Cons.prems Suc have "\<forall>k<j'. statusTaskID (tss ! k) \<noteq> statusTaskID t" by auto
    with Cons.IH[of j'] Cons.prems Suc h show ?thesis by simp
  qed
qed

lemma fold_callback_rev:
  "map statusRev (taskStatuses (fold statusChangedCallback pushes s)) = map statusRev (taskStatuses s)"
  by (induction pushes arbitrary: s) (simp_all add: statusChangedCallback_def taskStatusChanged_def)

text \<open>
  Claim C2. When the status mirror has a status with the pushed id, the callback that
  \<^verbatim>\<open>addTask\<close> installs overwrites the first such status with the pushed one, except that
  the revision keeps the value the mirror had, and then fires the change notifier. So after
  any sequence of pushes the revisions seen through \<^verbatim>\<open>viewTaskStatus\<close> are the ones seen
  before: no push decreases a revision.
\<close>

theorem statusChangedCallback_keeps_rev:
  assumes "j < length (taskStatuses s)"
    and "statusTaskID (taskStatuses s ! j) = statusTaskID pushed"
    and "\<forall>k<j. statusTaskID (taskStatuses s ! k) \<noteq> statusTaskID pushed"
  shows "statusChangedCallback pushed s =
           s\<lparr>taskStatuses := (taskStatuses s)[j := pushed\<lparr>statusRev := statusRev (taskStatuses s ! j)\<rparr>],
             trace := trace s @ [TaskStatusChanged]\<rparr>
     \<and> viewTaskStatus (map statusRev) (fold statusChangedCallback pushes s) =
         viewTaskStatus (map statusRev) s"
  using overwriteStatus_first[OF assms]
  by (simp add: statusChangedCallback_def taskStatusChanged_def emit_def viewTaskStatus_def fold_callback_rev)

theorem statusChangedCallback_keeps_rev_witness:
  "taskStatuses (statusChangedCallback samplePush twoTasks) =
     [taskStatus (sampleTask 5 2500 4), samplePush\<lparr>statusRev := 3\<rparr>]
   \<and> trace (statusChangedCallback samplePush twoTasks) = trace twoTasks @ [TaskStatusChanged]
   \<and> viewTaskStatus (map statusRev)
        (fold statusChangedCallback [samplePush, samplePush\<lparr>statusRev := -5\<rparr>] twoTasks) = [4, 3]"
  using statusChangedCallback_keeps_rev [of 1 twoTasks samplePush "[samplePush, samplePush\<lparr>statusRev := -5\<rparr>]"]
  by (simp add: twoTasks_eq samplePush_def sampleTask_def viewTaskStatus_def less_Suc_eq
      statusChangedCallback_def taskStatusChanged_def)

section \<open>Cancelling and pausing by id\<close>


lemma cancelTaskLoop_absent:
  "\<forall>p\<in>set ps. \<forall>td. heap s p = Some td \<longrightarrow> taskID (task td) \<noteq> tid \<Longrightarrow> cancelTaskLoop tid ps s = s"
  by (induction ps) (auto split: option.splits)

lemma pauseTaskLoop_absent:
  "\<forall>p\<in>set ps. \<forall>td. heap s p = Some td \<longrightarrow> taskID (task td) \<noteq> tid \<Longrightarrow> pauseTaskLoop tid b ps s = s"
  by (induction ps) (auto split: option.splits)

lemma togglePauseTaskLoop_absent:
  "\<forall>p\<in>set ps. \<forall>td. heap s p = Some td \<longrightarrow> taskID (task td) \<noteq> tid \<Longrightarrow> togglePauseTaskLoop tid ps s = s"
  by (induction ps) (auto split: option.splits)

lemma cancelTaskLoop_first:
  "i < length ps \<Longrightarrow> heap s (ps ! i) = Some td \<Longrightarrow> taskID (task td) = tid \<Longrightarrow>
   \<forall>k<i. \<forall>td'. heap s (ps ! k) = Some td' \<longrightarrow> taskID (task td') \<noteq> tid \<Longrightarrow>
   cancelTaskLoop tid ps s = emit [CancelTask (ps ! i), WakeAll] s"
proof (induction ps arbitrary: i)
  case Nil
  then show ?case by simp
next
  case (Cons p ps)
  show ?case
  proof (cases i)
    case 0
    with Cons.prems show ?thesis by (simp add: emit_def)
  next
    case (Suc i')
    from Cons.prems Suc have h: "\<forall>td'. heap s p = Some td' \<longrightarrow> taskID (task td') \<noteq> tid" by auto
    from Cons.prems Suc have "\<forall>k<i'. \<forall>td'. heap s (ps ! k) = Some td' \<longrightarrow> taskID (task td') \<noteq> tid" by auto
    with Cons.IH[of i'] Cons.prems Suc h show ?thesis by (auto split: option.splits)
  qed
qed

lemma pauseTaskLoop_first:
  "i < length ps \<Longrightarrow> heap s (ps ! i) = Some td \<Longrightarrow> taskID (task td) = tid \<Longrightarrow>
   \<forall>k<i. \<forall>td'. heap s (ps ! k) = Some td' \<longrightarrow> taskID (task td') \<noteq> tid \<Longrightarrow>
   pauseTaskLoop tid b ps s =
     emit [SetPaused (ps ! i) b, WakeAll] (s\<lparr>heap := (heap s)(ps ! i \<mapsto> td\<lparr>task := (task td)\<lparr>paused := b\<rparr>\<rparr>)\<rparr>)"
proof (induction ps arbitrary: i)
  case Nil
  then show ?case by simp
next
  case (Cons p ps)
  show ?case
  proof (cases i)
    case 0
    with Cons.prems show ?thesis by (simp add: emit_def setPaused_def fun_upd_def)
  next
    case (Suc i')
    from Cons.prems Suc have h: "\<forall>td'. heap s p = Some td' \<longrightarrow> taskID (task td') \<noteq> tid" by auto
    from Cons.prems Suc have "\<forall>k<i'. \<forall>td'. heap s (ps ! k) = Some td' \<longrightarrow> taskID (task td') \<noteq> tid" by auto
    with Cons.IH[of i'] Cons.prems Suc h show ?thesis by (auto split: option.splits)
  qed
qed

lemma togglePauseTaskLoop_first:
  "i < length ps \<Longrightarrow> heap s (ps ! i) = Some td \<Longrightarrow> taskID (task td) = tid \<Longrightarrow>
   \<forall>k<i. \<forall>td'. heap s (ps ! k) = Some td' \<longrightarrow> taskID (task td') \<noteq> tid \<Longrightarrow>
   togglePauseTaskLoop tid ps s =
     emit [SetPaused (ps ! i) (\<not> paused (task td)), WakeAll]
       (s\<lparr>heap := (heap s)(ps ! i \<mapsto> td\<lparr>task := (task td)\<lparr>paused := \<not> paused (task td)\<rparr>\<rparr>)\<rparr>)"
proof (induction ps arbitrary: i)
  case Nil
  then show ?case by simp
next
  case (Cons p ps)
  show ?case
  proof (cases i)
    case 0
    with Cons.prems show ?thesis by (simp add: emit_def setPaused_def fun_upd_def)
  next
    case (Suc i')
    from Cons.prems Suc have h: "\<forall>td'. heap s p = Some td' \<longrightarrow> taskID (task td') \<noteq> tid" by auto
    from Cons.prems Suc have "\<forall>k<i'. \<forall>td'. heap s (ps ! k) = Some td' \<longrightarrow> taskID (task td') \<noteq> tid" by auto
    with Cons.IH[of i'] Cons.prems Suc h show ?thesis by (auto split: option.splits)
  qed
qed

text \<open>
  Claim C8. When no entry of the registry holds a task with the id, \<^verbatim>\<open>cancelTask\<close>,
  \<^verbatim>\<open>pauseTask\<close> and \<^verbatim>\<open>togglePauseTask\<close> leave the queue as it is: no task is changed and
  no wait condition is signalled. When position \<open>i\<close> is the first whose task has the id,
  that task alone receives the call (\<^verbatim>\<open>cancelTask()\<close>, \<^verbatim>\<open>setPaused(paused)\<close>, or
  \<^verbatim>\<open>setPaused\<close> of the negated pause flag), followed by one \<^verbatim>\<open>wakeAll\<close>.
\<close>

theorem cancel_pause_toggle_by_id:
  "((\<forall>p\<in>set (tasks s). \<forall>td. heap s p = Some td \<longrightarrow> taskID (task td) \<noteq> tid) \<longrightarrow>
      cancelTask tid s = s \<and> pauseTask tid b s = s \<and> togglePauseTask tid s = s)
   \<and> (i < length (tasks s) \<and> heap s (tasks s ! i) = Some td \<and> taskID (task td) = tid
        \<and> (\<forall>k<i. \<forall>td'. heap s (tasks s ! k) = Some td' \<longrightarrow> taskID (task td') \<noteq> tid) \<longrightarrow>
      cancelTask tid s = s\<lparr>trace := trace s @ [CancelTask (tasks s ! i), WakeAll]\<rparr>
      \<and> pauseTask tid b s =
          s\<lparr>heap := (heap s)(tasks s ! i \<mapsto> td\<lparr>task := (task td)\<lparr>paused := b\<rparr>\<rparr>),
            trace := trace s @ [SetPaused (tasks s ! i) b, WakeAll]\<rparr>
      \<and> togglePauseTask tid s =
          s\<lparr>heap := (heap s)(tasks s ! i \<mapsto> td\<lparr>task := (task td)\<lparr>paused := \<not> paused (task td)\<rparr>\<rparr>),
            trace := trace s @ [SetPaused (tasks s ! i) (\<not> paused (task td)), WakeAll]\<rparr>)"
proof (intro conjI impI)
  assume a: "\<forall>p\<in>set (tasks s). \<forall>td. heap s p = Some td \<longrightarrow> taskID (task td) \<noteq> tid"
  show "cancelTask tid s = s" using cancelTaskLoop_absent[OF a] by (simp add: cancelTask_def)
  show "pauseTask tid b s = s" using pauseTaskLoop_absent[OF a] by (simp add: pauseTask_def)
  show "togglePauseTask tid s = s" using togglePauseTaskLoop_absent[OF a] by (simp add: togglePauseTask_def)
next
  assume a: "i < length (tasks s) \<and> heap s (tasks s ! i) = Some td \<and> taskID (task td) = tid
        \<and> (\<forall>k<i. \<forall>td'. heap s (tasks s ! k) = Some td' \<longrightarrow> taskID (task td') \<noteq> tid)"
  then have 1: "i < length (tasks s)" and 2: "heap s (tasks s ! i) = Some td" and 3: "taskID (task td) = tid"
    and 4: "\<forall>k<i. \<forall>td'. heap s (tasks s ! k) = Some td' \<longrightarrow> taskID (task td') \<noteq> tid" by auto
  show "cancelTask tid s = s\<lparr>trace := trace s @ [CancelTask (tasks s ! i), WakeAll]\<rparr>"
    using cancelTaskLoop_first[OF 1 2 3 4] by (simp add: cancelTask_def emit_def)
  show "pauseTask tid b s =
          s\<lparr>heap := (heap s)(tasks s ! i \<mapsto> td\<lparr>task := (task td)\<lparr>paused := b\<rparr>\<rparr>),
            trace := trace s @ [SetPaused (tasks s ! i) b, WakeAll]\<rparr>"
    using pauseTaskLoop_first[OF 1 2 3 4] by (simp add: pauseTask_def emit_def)
  show "togglePauseTask tid s =
          s\<lparr>heap := (heap s)(tasks s ! i \<mapsto> td\<lparr>task := (task td)\<lparr>paused := \<not> paused (task td)\<rparr>\<rparr>),
            trace := trace s @ [SetPaused (tasks s ! i) (\<not> paused (task td)), WakeAll]\<rparr>"
    using togglePauseTaskLoop_first[OF 1 2 3 4] by (simp add: togglePauseTask_def emit_def)
qed

theorem cancel_pause_toggle_by_id_witness:
  "cancelTask 9 twoTasks = twoTasks \<and> pauseTask 9 True twoTasks = twoTasks
   \<and> togglePauseTask 9 twoTasks = twoTasks
   \<and> trace (cancelTask 7 twoTasks) = trace twoTasks @ [CancelTask 1, WakeAll]
   \<and> trace (pauseTask 7 True twoTasks) = trace twoTasks @ [SetPaused 1 True, WakeAll]
   \<and> map_option (\<lambda>td. paused (task td)) (heap (pauseTask 7 True twoTasks) 1) = Some True
   \<and> heap (pauseTask 7 True twoTasks) 0 = heap twoTasks 0
   \<and> trace (togglePauseTask 7 twoTasks) = trace twoTasks @ [SetPaused 1 True, WakeAll]"
  using cancel_pause_toggle_by_id [of twoTasks 9 True 0 "\<lparr>task = sampleTask 7 0 3, nextRun = 1000, active = False\<rparr>"]
    cancel_pause_toggle_by_id [of twoTasks 7 True 1 "\<lparr>task = sampleTask 7 0 3, nextRun = 1000, active = False\<rparr>"]
  by (simp add: twoTasks_eq sampleTask_def less_Suc_eq)

section \<open>Completion of a task\<close>

lemma removeTaskStatus_filter:
  "distinct (map statusTaskID tss) \<Longrightarrow>
   removeTaskStatus tid tss = filter (\<lambda>ts. statusTaskID ts \<noteq> tid) tss"
proof (induction tss)
  case Nil
  then show ?case by simp
next
  case (Cons ts tss)
  then show ?case
    by (auto simp: image_iff intro!: filter_True[symmetric])
qed

lemma eraseTask_tasks: "tasks (eraseTask p s) = remove1 p (tasks s)"
proof (cases "p \<in> set (tasks s)")
  case True
  then have "findIndex p (tasks s) \<noteq> length (tasks s)"
    using findIndex_less_iff[of p "tasks s"] by simp
  then show ?thesis by (simp add: eraseTask_def Let_def erase_remove1)
next
  case False
  then show ?thesis by (simp add: eraseTask_absent remove1_idem)
qed

lemma eraseTask_frame [simp]:
  "heap (eraseTask p s) = heap s"
  "trace (eraseTask p s) = trace s"
  "taskStatuses (eraseTask p s) = taskStatuses s"
  "workDone (eraseTask p s) = workDone s"
  "waitFor (eraseTask p s) = waitFor s"
  "finish (eraseTask p s) = finish s"
  "numberOfTaskThreads (eraseTask p s) = numberOfTaskThreads s"
  "numberOfActiveTaskThreads (eraseTask p s) = numberOfActiveTaskThreads s"
  by (simp_all add: eraseTask_def Let_def)

text \<open>
  Claim C1. Let the entry at address \<open>p\<close> be live when \<^verbatim>\<open>performTask\<close> has returned, with
  \<^verbatim>\<open>timeoutMS()\<close> below 1 or \<^verbatim>\<open>RunAgain::No\<close> returned, in a queue whose registry holds no
  address twice and whose status mirror holds no id twice. Then the worker, under the lock,
  takes the entry out of the registry and the status with the task's id out of the mirror
  (all other statuses stay, in order), without deleting anything yet; outside the lock it
  calls \<^verbatim>\<open>updateTaskStatus\<close> once, with the task's status marked complete, and then deletes
  the entry, once. Afterwards the mirror holds no status with the task's id.
\<close>

theorem completed_task_removed:
  assumes "heap s p = Some td"
    and "timeoutMS (task td) < 1 \<or> runAgain = No"
    and "distinct (tasks s)"
    and "distinct (map statusTaskID (taskStatuses s))"
  shows "fst (afterPerformTask now runAgain p s)
    \<and> tasks (snd (afterPerformTask now runAgain p s)) = remove1 p (tasks s)
    \<and> p \<notin> set (tasks (snd (afterPerformTask now runAgain p s)))
    \<and> taskStatuses (snd (afterPerformTask now runAgain p s)) =
         filter (\<lambda>ts. statusTaskID ts \<noteq> taskID (task td)) (taskStatuses s)
    \<and> heap (snd (afterPerformTask now runAgain p s)) = heap s
    \<and> trace (snd (afterPerformTask now runAgain p s)) = trace s
    \<and> trace (finishTask p (snd (afterPerformTask now runAgain p s))) =
         trace s @ [UpdateTaskStatus p ((taskStatus (task td))\<lparr>complete := True\<rparr>), Delete p]
    \<and> heap (finishTask p (snd (afterPerformTask now runAgain p s))) = (heap s)(p := None)
    \<and> tasks (finishTask p (snd (afterPerformTask now runAgain p s))) = remove1 p (tasks s)
    \<and> taskStatuses (finishTask p (snd (afterPerformTask now runAgain p s))) =
         filter (\<lambda>ts. statusTaskID ts \<noteq> taskID (task td)) (taskStatuses s)
    \<and> taskID (task td) \<notin>
         statusTaskID ` set (taskStatuses (finishTask p (snd (afterPerformTask now runAgain p s))))"
proof -
  let ?s1 = "snd (afterPerformTask now runAgain p s)"
  have a: "afterPerformTask now runAgain p s =
      (True, (eraseTask p s)\<lparr>taskStatuses := removeTaskStatus (taskID (task td)) (taskStatuses s)\<rparr>)"
    using assms(1,2) by (simp add: afterPerformTask_def Let_def)
  have h1: "heap ?s1 p = Some td" using assms(1) by (simp add: a)
  have f: "finishTask p ?s1 =
      ?s1\<lparr>heap := (heap s)(p := None),
          trace := trace s @ [UpdateTaskStatus p ((taskStatus (task td))\<lparr>complete := True\<rparr>), Delete p]\<rparr>"
    using assms(1) by (simp add: finishTask_def a Let_def emit_def)
  show ?thesis
    using assms(3,4)
    by (simp add: f) (auto simp: a eraseTask_tasks removeTaskStatus_filter)
qed

theorem completed_task_removed_witness:
  "heap twoTasks 1 = Some \<lparr>task = sampleTask 7 0 3, nextRun = 1000, active = False\<rparr>
   \<and> timeoutMS (sampleTask 7 0 3) < 1
   \<and> distinct (tasks twoTasks) \<and> distinct (map statusTaskID (taskStatuses twoTasks))
   \<and> tasks (finishTask 1 (snd (afterPerformTask 1000 Yes 1 twoTasks))) = [0]
   \<and> taskStatuses (finishTask 1 (snd (afterPerformTask 1000 Yes 1 twoTasks))) =
        [taskStatus (sampleTask 5 2500 4)]
   \<and> trace (finishTask 1 (snd (afterPerformTask 1000 Yes 1 twoTasks))) =
        trace twoTasks @
          [UpdateTaskStatus 1 ((taskStatus (sampleTask 7 0 3))\<lparr>complete := True\<rparr>), Delete 1]
   \<and> heap (finishTask 1 (snd (afterPerformTask 1000 Yes 1 twoTasks))) 1 = None"
  using completed_task_removed [of twoTasks 1
      "\<lparr>task = sampleTask 7 0 3, nextRun = 1000, active = False\<rparr>" Yes 1000]
  by (simp add: twoTasks_eq sampleTask_def)

section \<open>The housekeeping sweep\<close>

lemma setWaitingMessage_length [simp]:
  "length (fst (setWaitingMessage t n tss c)) = length tss"
  by (induction tss) (auto simp: split_beta)

lemma setWaitingMessage_ids [simp]:
  "map statusTaskID (fst (setWaitingMessage t n tss c)) = map statusTaskID tss"
  by (induction tss) (auto simp: split_beta)

lemma setWaitingMessage_paused [simp]:
  "map statusPaused (fst (setWaitingMessage t n tss c)) = map statusPaused tss"
  by (induction tss) (auto simp: split_beta)

lemma setWaitingMessage_changed:
  "snd (setWaitingMessage t n tss c) = (c \<or> taskID t \<in> statusTaskID ` set tss)"
  by (induction tss) (auto simp: split_beta)

lemma setWaitingMessage_other:
  "j < length tss \<Longrightarrow> statusTaskID (tss ! j) \<noteq> taskID t \<Longrightarrow>
   fst (setWaitingMessage t n tss c) ! j = tss ! j"
proof (induction tss arbitrary: j)
  case Nil
  then show ?case by simp
next
  case (Cons ts tss)
  then show ?case by (cases j) (auto simp: split_beta)
qed

lemma setWaitingMessage_first:
  "j < length tss \<Longrightarrow> statusTaskID (tss ! j) = taskID t \<Longrightarrow>
   \<forall>k<j. statusTaskID (tss ! k) \<noteq> taskID t \<Longrightarrow>
   fst (setWaitingMessage t n tss c) ! j =
     (tss ! j)\<lparr>message := (if statusPaused (tss ! j) then ''Paused.''
                             else if n = 0 then ''Waiting for thread.''
                             else timeoutMessage t @ to_string n)\<rparr>"
proof (induction tss arbitrary: j)
  case Nil
  then show ?case by simp
next
  case (Cons ts tss)
  show ?case
  proof (cases j)
    case 0
    with Cons.prems show ?thesis by simp
  next
    case (Suc j')
    from Cons.prems Suc have h: "statusTaskID ts \<noteq> taskID t" by auto
    from Cons.prems Suc have "\<forall>k<j'. statusTaskID (tss ! k) \<noteq> taskID t" by auto
    with Cons.IH[of j'] Cons.prems Suc h show ?thesis by (simp add: split_beta)
  qed
qed

text \<open>One entry of the sweep, field by field.\<close>

lemma updateWaitingMessage_frame [simp]:
  "tasks (fst (updateWaitingMessage now p sc)) = tasks (fst sc)"
  "nextTaskIndex (fst (updateWaitingMessage now p sc)) = nextTaskIndex (fst sc)"
  "workDone (fst (updateWaitingMessage now p sc)) = workDone (fst sc)"
  "waitFor (fst (updateWaitingMessage now p sc)) = waitFor (fst sc)"
  "numberOfTaskThreads (fst (updateWaitingMessage now p sc)) = numberOfTaskThreads (fst sc)"
  "numberOfActiveTaskThreads (fst (updateWaitingMessage now p sc)) = numberOfActiveTaskThreads (fst sc)"
  "finish (fst (updateWaitingMessage now p sc)) = finish (fst sc)"
  "trace (fst (updateWaitingMessage now p sc)) = trace (fst sc)"
  "length (taskStatuses (fst (updateWaitingMessage now p sc))) = length (taskStatuses (fst sc))"
  "map statusTaskID (taskStatuses (fst (updateWaitingMessage now p sc))) = map statusTaskID (taskStatuses (fst sc))"
  "map statusPaused (taskStatuses (fst (updateWaitingMessage now p sc))) = map statusPaused (taskStatuses (fst sc))"
  by (cases sc; simp add: updateWaitingMessage_def Let_def split_beta split: option.splits)+

lemma updateWaitingMessage_heap:
  "heap (fst (updateWaitingMessage now p sc)) =
     (heap (fst sc))(p := map_option (sweptEntry now) (heap (fst sc) p))"
  by (cases sc) (auto simp: updateWaitingMessage_def Let_def split_beta sweptEntry_def
      waitingEntry_def fun_upd_def split: option.splits)

lemma updateWaitingMessage_changed:
  "snd (updateWaitingMessage now p sc) =
     (snd sc \<or> (\<exists>td. heap (fst sc) p = Some td \<and> waitingEntry td
                   \<and> taskID (task td) \<in> statusTaskID ` set (taskStatuses (fst sc))))"
  by (cases sc) (auto simp: updateWaitingMessage_def Let_def split_beta waitingEntry_def
      setWaitingMessage_changed split: option.splits)

lemma updateWaitingMessage_status_other:
  assumes "j < length (taskStatuses (fst sc))"
    and "\<forall>td. heap (fst sc) p = Some td \<longrightarrow> taskID (task td) \<noteq> statusTaskID (taskStatuses (fst sc) ! j)"
  shows "taskStatuses (fst (updateWaitingMessage now p sc)) ! j = taskStatuses (fst sc) ! j"
  using assms
  by (cases sc) (auto simp: updateWaitingMessage_def Let_def split_beta setWaitingMessage_other
      split: option.splits)

lemma updateWaitingMessage_status_first:
  assumes "heap (fst sc) p = Some td" and "waitingEntry td"
    and "j < length (taskStatuses (fst sc))"
    and "statusTaskID (taskStatuses (fst sc) ! j) = taskID (task td)"
    and "\<forall>k<j. statusTaskID (taskStatuses (fst sc) ! k) \<noteq> taskID (task td)"
  shows "taskStatuses (fst (updateWaitingMessage now p sc)) ! j =
     (taskStatuses (fst sc) ! j)\<lparr>message :=
        (if statusPaused (taskStatuses (fst sc) ! j) then ''Paused.''
         else if max 0 (int64 (nextRun td - now) sdiv 1000) = 0 then ''Waiting for thread.''
         else timeoutMessage (task td) @ to_string (max 0 (int64 (nextRun td - now) sdiv 1000)))\<rparr>"
  using assms setWaitingMessage_first[of j "taskStatuses (fst sc)" "task td" "max 0 (int64 (nextRun td - now) sdiv 1000)" "snd sc"]
  by (cases sc) (simp add: updateWaitingMessage_def Let_def split_beta waitingEntry_def)

text \<open>The whole sweep.\<close>

lemma updateWaitingMessagesLoop_frame [simp]:
  "tasks (fst (updateWaitingMessagesLoop clock i ps sc)) = tasks (fst sc)"
  "nextTaskIndex (fst (updateWaitingMessagesLoop clock i ps sc)) = nextTaskIndex (fst sc)"
  "workDone (fst (updateWaitingMessagesLoop clock i ps sc)) = workDone (fst sc)"
  "waitFor (fst (updateWaitingMessagesLoop clock i ps sc)) = waitFor (fst sc)"
  "numberOfTaskThreads (fst (updateWaitingMessagesLoop clock i ps sc)) = numberOfTaskThreads (fst sc)"
  "numberOfActiveTaskThreads (fst (updateWaitingMessagesLoop clock i ps sc)) = numberOfActiveTaskThreads (fst sc)"
  "finish (fst (updateWaitingMessagesLoop clock i ps sc)) = finish (fst sc)"
  "trace (fst (updateWaitingMessagesLoop clock i ps sc)) = trace (fst sc)"
  "length (taskStatuses (fst (updateWaitingMessagesLoop clock i ps sc))) = length (taskStatuses (fst sc))"
  "map statusTaskID (taskStatuses (fst (updateWaitingMessagesLoop clock i ps sc))) = map statusTaskID (taskStatuses (fst sc))"
  "map statusPaused (taskStatuses (fst (updateWaitingMessagesLoop clock i ps sc))) = map statusPaused (taskStatuses (fst sc))"
  by (induction ps arbitrary: i sc; simp)+

lemma updateWaitingMessagesLoop_heap_other:
  "q \<notin> set ps \<Longrightarrow> heap (fst (updateWaitingMessagesLoop clock i ps sc)) q = heap (fst sc) q"
  by (induction ps arbitrary: i sc) (auto simp: updateWaitingMessage_heap)

lemma updateWaitingMessagesLoop_heap_at:
  "distinct ps \<Longrightarrow> k < length ps \<Longrightarrow>
   heap (fst (updateWaitingMessagesLoop clock i ps sc)) (ps ! k) =
     map_option (sweptEntry (clock (i + k))) (heap (fst sc) (ps ! k))"
proof (induction ps arbitrary: i k sc)
  case Nil
  then show ?case by simp
next
  case (Cons p ps)
  show ?case
  proof (cases k)
    case 0
    with Cons.prems show ?thesis
      by (simp add: updateWaitingMessagesLoop_heap_other updateWaitingMessage_heap)
  next
    case (Suc k')
    with Cons.prems have "ps ! k' \<noteq> p" by auto
    with Cons.prems Suc Cons.IH[of k' "Suc i" "updateWaitingMessage (clock i) p sc"]
    show ?thesis by (simp add: updateWaitingMessage_heap)
  qed
qed


lemma sweptEntry_task [simp]: "task (sweptEntry now td) = task td"
  by (simp add: sweptEntry_def)

lemma sweptEntry_active [simp]: "active (sweptEntry now td) = active td"
  by (simp add: sweptEntry_def)

lemma map_eq_nth: "map f xs = map f ys \<Longrightarrow> j < length xs \<Longrightarrow> f (xs ! j) = f (ys ! j)"
  by (metis length_map nth_map)

lemma map_eq_image: "map f xs = map f ys \<Longrightarrow> f ` set xs = f ` set ys"
  by (metis set_map)

lemma updateWaitingMessage_id_set [simp]:
  "statusTaskID ` set (taskStatuses (fst (updateWaitingMessage now p sc))) =
   statusTaskID ` set (taskStatuses (fst sc))"
  by (rule map_eq_image) simp

lemma updateWaitingMessage_id_nth [simp]:
  "j < length (taskStatuses (fst sc)) \<Longrightarrow>
   statusTaskID (taskStatuses (fst (updateWaitingMessage now p sc)) ! j) =
   statusTaskID (taskStatuses (fst sc) ! j)"
  by (rule map_eq_nth) simp_all

lemma updateWaitingMessage_paused_nth [simp]:
  "j < length (taskStatuses (fst sc)) \<Longrightarrow>
   statusPaused (taskStatuses (fst (updateWaitingMessage now p sc)) ! j) =
   statusPaused (taskStatuses (fst sc) ! j)"
  by (rule map_eq_nth) simp_all

lemma updateWaitingMessagesLoop_changed:
  "distinct ps \<Longrightarrow>
   snd (updateWaitingMessagesLoop clock i ps sc) =
     (snd sc \<or> (\<exists>p\<in>set ps. \<exists>td. heap (fst sc) p = Some td \<and> waitingEntry td
                   \<and> taskID (task td) \<in> statusTaskID ` set (taskStatuses (fst sc))))"
proof (induction ps arbitrary: i sc)
  case Nil
  then show ?case by simp
next
  case (Cons p ps)
  let ?sc1 = "updateWaitingMessage (clock i) p sc"
  from Cons.prems have d: "distinct ps" and np: "p \<notin> set ps" by auto
  have same: "\<And>q. q \<in> set ps \<Longrightarrow> heap (fst ?sc1) q = heap (fst sc) q"
    using np by (auto simp: updateWaitingMessage_heap)
  show ?case
    by (simp add: Cons.IH[OF d] updateWaitingMessage_changed same cong: bex_cong)
qed

lemma updateWaitingMessagesLoop_status_keep:
  "j < length (taskStatuses (fst sc)) \<Longrightarrow>
   \<forall>p\<in>set ps. \<forall>td. heap (fst sc) p = Some td \<longrightarrow>
      taskID (task td) \<noteq> statusTaskID (taskStatuses (fst sc) ! j) \<Longrightarrow>
   taskStatuses (fst (updateWaitingMessagesLoop clock i ps sc)) ! j = taskStatuses (fst sc) ! j"
proof (induction ps arbitrary: i sc)
  case Nil
  then show ?case by simp
next
  case (Cons p ps)
  let ?sc1 = "updateWaitingMessage (clock i) p sc"
  have j1: "j < length (taskStatuses (fst ?sc1))" using Cons.prems(1) by simp
  have keep1: "taskStatuses (fst ?sc1) ! j = taskStatuses (fst sc) ! j"
    using Cons.prems by (intro updateWaitingMessage_status_other) auto
  have rest: "\<forall>q\<in>set ps. \<forall>td. heap (fst ?sc1) q = Some td \<longrightarrow>
      taskID (task td) \<noteq> statusTaskID (taskStatuses (fst ?sc1) ! j)"
    using Cons.prems by (auto simp: updateWaitingMessage_heap)
  from Cons.IH[OF j1 rest] keep1 show ?case by simp
qed

lemma updateWaitingMessagesLoop_status_at:
  assumes "distinct ps" and "k < length ps"
    and "heap (fst sc) (ps ! k) = Some td" and "waitingEntry td"
    and "\<forall>q\<in>set ps. q \<noteq> ps ! k \<longrightarrow>
           (\<forall>td'. heap (fst sc) q = Some td' \<longrightarrow> taskID (task td') \<noteq> taskID (task td))"
    and "j < length (taskStatuses (fst sc))"
    and "statusTaskID (taskStatuses (fst sc) ! j) = taskID (task td)"
    and "\<forall>k'<j. statusTaskID (taskStatuses (fst sc) ! k') \<noteq> taskID (task td)"
  shows "taskStatuses (fst (updateWaitingMessagesLoop clock i ps sc)) ! j =
     (taskStatuses (fst sc) ! j)\<lparr>message :=
        (if statusPaused (taskStatuses (fst sc) ! j) then ''Paused.''
         else if max 0 (int64 (nextRun td - clock (i + k)) sdiv 1000) = 0 then ''Waiting for thread.''
         else timeoutMessage (task td)
                @ to_string (max 0 (int64 (nextRun td - clock (i + k)) sdiv 1000)))\<rparr>"
  using assms
proof (induction ps arbitrary: i k sc)
  case Nil
  then show ?case by simp
next
  case (Cons p ps)
  let ?sc1 = "updateWaitingMessage (clock i) p sc"
  from Cons.prems(1) have d: "distinct ps" and np: "p \<notin> set ps" by auto
  have same: "\<And>q. q \<in> set ps \<Longrightarrow> heap (fst ?sc1) q = heap (fst sc) q"
    using np by (auto simp: updateWaitingMessage_heap)
  have j1: "j < length (taskStatuses (fst ?sc1))" using Cons.prems(6) by simp
  show ?case
  proof (cases k)
    case 0
    with Cons.prems have hp: "heap (fst sc) p = Some td" by simp
    have w: "taskStatuses (fst ?sc1) ! j =
       (taskStatuses (fst sc) ! j)\<lparr>message :=
        (if statusPaused (taskStatuses (fst sc) ! j) then ''Paused.''
         else if max 0 (int64 (nextRun td - clock i) sdiv 1000) = 0 then ''Waiting for thread.''
         else timeoutMessage (task td) @ to_string (max 0 (int64 (nextRun td - clock i) sdiv 1000)))\<rparr>"
      by (rule updateWaitingMessage_status_first[OF hp Cons.prems(4) Cons.prems(6,7,8)])
    have rest: "\<forall>q\<in>set ps. \<forall>td'. heap (fst ?sc1) q = Some td' \<longrightarrow>
        taskID (task td') \<noteq> statusTaskID (taskStatuses (fst ?sc1) ! j)"
      using Cons.prems(5,6,7) 0 np by (auto simp: same)
    from updateWaitingMessagesLoop_status_keep[OF j1 rest, of clock "Suc i"] w 0
    show ?thesis by simp
  next
    case (Suc k')
    with Cons.prems have k': "k' < length ps" and ne: "ps ! k' \<noteq> p" by auto
    have hk: "heap (fst ?sc1) (ps ! k') = Some td"
      using Cons.prems(3) Suc k' by (simp add: same)
    have others: "\<forall>q\<in>set ps. q \<noteq> ps ! k' \<longrightarrow>
           (\<forall>td'. heap (fst ?sc1) q = Some td' \<longrightarrow> taskID (task td') \<noteq> taskID (task td))"
      using Cons.prems(5) Suc by (auto simp: same)
    have pid: "\<forall>td'. heap (fst sc) p = Some td' \<longrightarrow>
        taskID (task td') \<noteq> statusTaskID (taskStatuses (fst sc) ! j)"
      using Cons.prems(5,7) Suc ne by auto
    have keep1: "taskStatuses (fst ?sc1) ! j = taskStatuses (fst sc) ! j"
      by (rule updateWaitingMessage_status_other[OF Cons.prems(6) pid])
    have id1: "statusTaskID (taskStatuses (fst ?sc1) ! j) = taskID (task td)"
      using Cons.prems(7) keep1 by simp
    have first1: "\<forall>k'<j. statusTaskID (taskStatuses (fst ?sc1) ! k') \<noteq> taskID (task td)"
      using Cons.prems(6,8) by simp
    from Cons.IH[OF d k' hk Cons.prems(4) others j1 id1 first1, of "Suc i"] keep1 Suc
    show ?thesis by simp
  qed
qed


lemma updateWaitingMessages_unfold:
  "updateWaitingMessages clock s =
     (if snd (updateWaitingMessagesLoop clock 0 (tasks s) (s, False))
      then taskStatusChanged (fst (updateWaitingMessagesLoop clock 0 (tasks s) (s, False)))
      else fst (updateWaitingMessagesLoop clock 0 (tasks s) (s, False)))"
  by (simp add: updateWaitingMessages_def split_beta)

lemma whole_seconds_zero: "max 0 ((x::int) sdiv 1000) = 0 \<longleftrightarrow> x < 1000"
proof (cases "x < 0")
  case True
  then have "x sdiv 1000 \<le> 0"
    by (simp add: signed_divide_int_def sgn_if pos_imp_zdiv_nonneg_iff)
  with True show ?thesis by simp
next
  case False
  then have "x sdiv 1000 = x div 1000" by (simp add: signed_divide_int_def sgn_if)
  moreover have "x div 1000 \<le> 0 \<longleftrightarrow> x < 1000" using False by linarith
  moreover have "0 \<le> x div 1000" using False by (simp add: pos_imp_zdiv_nonneg_iff)
  ultimately show ?thesis by (auto simp: max_def)
qed

lemma whole_seconds_pos: "1000 \<le> (x::int) \<Longrightarrow> max 0 (x sdiv 1000) = x div 1000"
  by (simp add: signed_divide_int_def sgn_if max_def pos_imp_zdiv_nonneg_iff)

text \<open>
  Claim C10. The sweep writes to the registry: in a registry that holds no address twice,
  the entry at position \<open>k\<close>, if it is not active and is paused or has a positive
  \<open>nextRun\<close>, gets \<open>nextRun = 0\<close> when the difference \<open>nextRun - now\<close>, taken in
  \<^verbatim>\<open>int64_t\<close> at the time read for the entry, is negative, and is left as it is otherwise;
  its task and its \<open>active\<close> flag never change. Whenever the difference fits into an
  \<^verbatim>\<open>int64_t\<close>, the entry gets \<open>nextRun = 0\<close> exactly when its \<open>nextRun\<close> lies before the
  time read for it. The list, the cursor, \<open>workDone\<close>, \<open>waitFor\<close>, the thread counts and
  \<open>finish\<close> are unchanged, and so is every entry outside the registry.
\<close>

theorem updateWaitingMessages_registry:
  assumes "distinct (tasks s)" and "k < length (tasks s)"
  shows "tasks (updateWaitingMessages clock s) = tasks s
    \<and> nextTaskIndex (updateWaitingMessages clock s) = nextTaskIndex s
    \<and> workDone (updateWaitingMessages clock s) = workDone s
    \<and> waitFor (updateWaitingMessages clock s) = waitFor s
    \<and> numberOfTaskThreads (updateWaitingMessages clock s) = numberOfTaskThreads s
    \<and> numberOfActiveTaskThreads (updateWaitingMessages clock s) = numberOfActiveTaskThreads s
    \<and> finish (updateWaitingMessages clock s) = finish s
    \<and> heap (updateWaitingMessages clock s) (tasks s ! k) =
        map_option
          (\<lambda>td. if \<not> active td \<and> (0 < nextRun td \<or> paused (task td))
                   \<and> int64 (nextRun td - clock k) < 0
                then td\<lparr>nextRun := 0\<rparr> else td)
          (heap s (tasks s ! k))
    \<and> ((\<forall>td. heap s (tasks s ! k) = Some td \<longrightarrow>
            INT64_MIN \<le> nextRun td - clock k \<and> nextRun td - clock k \<le> INT64_MAX) \<longrightarrow>
        heap (updateWaitingMessages clock s) (tasks s ! k) =
          map_option
            (\<lambda>td. if \<not> active td \<and> (0 < nextRun td \<or> paused (task td)) \<and> nextRun td < clock k
                  then td\<lparr>nextRun := 0\<rparr> else td)
            (heap s (tasks s ! k)))
    \<and> (q \<notin> set (tasks s) \<longrightarrow> heap (updateWaitingMessages clock s) q = heap s q)"
proof -
  have sw: "sweptEntry (clock k) =
      (\<lambda>td. if \<not> active td \<and> (0 < nextRun td \<or> paused (task td))
               \<and> int64 (nextRun td - clock k) < 0
             then td\<lparr>nextRun := 0\<rparr> else td)"
    by (rule ext) (simp add: sweptEntry_def waitingEntry_def)
  have at: "heap (updateWaitingMessages clock s) (tasks s ! k) =
      map_option (sweptEntry (clock k)) (heap s (tasks s ! k))"
    using updateWaitingMessagesLoop_heap_at[OF assms, of clock 0 "(s, False)"]
    by (simp add: updateWaitingMessages_unfold taskStatusChanged_def)
  have fits: "(\<forall>td. heap s (tasks s ! k) = Some td \<longrightarrow>
            INT64_MIN \<le> nextRun td - clock k \<and> nextRun td - clock k \<le> INT64_MAX) \<longrightarrow>
        heap (updateWaitingMessages clock s) (tasks s ! k) =
          map_option
            (\<lambda>td. if \<not> active td \<and> (0 < nextRun td \<or> paused (task td)) \<and> nextRun td < clock k
                  then td\<lparr>nextRun := 0\<rparr> else td)
            (heap s (tasks s ! k))"
  proof (cases "heap s (tasks s ! k)")
    case None
    then show ?thesis using at by simp
  next
    case (Some td)
    show ?thesis
    proof
      assume "\<forall>td. heap s (tasks s ! k) = Some td \<longrightarrow>
            INT64_MIN \<le> nextRun td - clock k \<and> nextRun td - clock k \<le> INT64_MAX"
      with Some have "int64 (nextRun td - clock k) = nextRun td - clock k"
        by (simp add: int64_representable)
      then show "heap (updateWaitingMessages clock s) (tasks s ! k) =
          map_option
            (\<lambda>td. if \<not> active td \<and> (0 < nextRun td \<or> paused (task td)) \<and> nextRun td < clock k
                  then td\<lparr>nextRun := 0\<rparr> else td)
            (heap s (tasks s ! k))"
        using at Some by (simp add: sweptEntry_def waitingEntry_def)
    qed
  qed
  have other: "q \<notin> set (tasks s) \<longrightarrow> heap (updateWaitingMessages clock s) q = heap s q"
    using updateWaitingMessagesLoop_heap_other[of q "tasks s" clock 0 "(s, False)"]
    by (simp add: updateWaitingMessages_unfold taskStatusChanged_def)
  have frame: "tasks (updateWaitingMessages clock s) = tasks s
    \<and> nextTaskIndex (updateWaitingMessages clock s) = nextTaskIndex s
    \<and> workDone (updateWaitingMessages clock s) = workDone s
    \<and> waitFor (updateWaitingMessages clock s) = waitFor s
    \<and> numberOfTaskThreads (updateWaitingMessages clock s) = numberOfTaskThreads s
    \<and> numberOfActiveTaskThreads (updateWaitingMessages clock s) = numberOfActiveTaskThreads s
    \<and> finish (updateWaitingMessages clock s) = finish s"
    by (simp add: updateWaitingMessages_unfold taskStatusChanged_def)
  from frame at fits other show ?thesis unfolding sw by blast
qed

theorem updateWaitingMessages_registry_witness:
  "distinct (tasks twoTasks) \<and> 1 < length (tasks twoTasks)
   \<and> INT64_MIN \<le> 1000 - sampleClock 1 \<and> 1000 - sampleClock 1 \<le> INT64_MAX
   \<and> tasks (updateWaitingMessages sampleClock twoTasks) = [0, 1]
   \<and> nextTaskIndex (updateWaitingMessages sampleClock twoTasks) = 0
   \<and> heap (updateWaitingMessages sampleClock twoTasks) 1 =
        Some \<lparr>task = sampleTask 7 0 3, nextRun = 0, active = False\<rparr>
   \<and> heap (updateWaitingMessages sampleClock twoTasks) 5 = None"
  using updateWaitingMessages_registry [of twoTasks 1 sampleClock 5]
  by (simp add: twoTasks_eq sampleClock_def sampleTask_def INT64_MIN_def INT64_MAX_def int64_def)

text \<open>
  Claim C3, as the code has it. In a registry that holds no address twice, take the entry at
  position \<open>k\<close>, not active and paused or with a positive \<open>nextRun\<close>, the only entry with
  its task id, and let \<open>j\<close> be the first position of the status mirror with that id. After
  the sweep the message there is \<open>Paused.\<close> if that status is marked paused,
  \<open>Waiting for thread.\<close> if fewer than 1000 ms remain until \<open>nextRun\<close> at the time read for
  the entry (the remaining whole seconds are zero; a task that is due is one case), and
  otherwise the task's \<^verbatim>\<open>timeoutMessage()\<close> followed by the remaining whole seconds; the
  other fields of the status are unchanged. What remains is the difference
  \<open>nextRun - now\<close> taken in \<^verbatim>\<open>int64_t\<close>, which is the difference itself whenever that fits.
  The change notifier fires once after the sweep if some entry the sweep looks at has a
  status with its id in the mirror, whether or not a message text changed, and does not
  fire otherwise.
\<close>

theorem updateWaitingMessages_messages:
  assumes "distinct (tasks s)"
  shows "(k < length (tasks s) \<and> heap s (tasks s ! k) = Some td
          \<and> \<not> active td \<and> (0 < nextRun td \<or> paused (task td))
          \<and> (\<forall>q\<in>set (tasks s). q \<noteq> tasks s ! k \<longrightarrow>
                (\<forall>td'. heap s q = Some td' \<longrightarrow> taskID (task td') \<noteq> taskID (task td)))
          \<and> j < length (taskStatuses s) \<and> statusTaskID (taskStatuses s ! j) = taskID (task td)
          \<and> (\<forall>k'<j. statusTaskID (taskStatuses s ! k') \<noteq> taskID (task td))
        \<longrightarrow> taskStatuses (updateWaitingMessages clock s) ! j =
              (taskStatuses s ! j)\<lparr>message :=
                 (if statusPaused (taskStatuses s ! j) then ''Paused.''
                  else if int64 (nextRun td - clock k) < 1000 then ''Waiting for thread.''
                  else timeoutMessage (task td)
                         @ to_string (int64 (nextRun td - clock k) div 1000))\<rparr>)
    \<and> (INT64_MIN \<le> nextRun td - clock k \<and> nextRun td - clock k \<le> INT64_MAX \<longrightarrow>
          int64 (nextRun td - clock k) = nextRun td - clock k)
    \<and> trace (updateWaitingMessages clock s) =
        trace s @
          (if \<exists>p\<in>set (tasks s). \<exists>td'. heap s p = Some td'
                 \<and> \<not> active td' \<and> (0 < nextRun td' \<or> paused (task td'))
                 \<and> taskID (task td') \<in> statusTaskID ` set (taskStatuses s)
           then [TaskStatusChanged] else [])"
proof (intro conjI impI)
  assume a: "k < length (tasks s) \<and> heap s (tasks s ! k) = Some td
          \<and> \<not> active td \<and> (0 < nextRun td \<or> paused (task td))
          \<and> (\<forall>q\<in>set (tasks s). q \<noteq> tasks s ! k \<longrightarrow>
                (\<forall>td'. heap s q = Some td' \<longrightarrow> taskID (task td') \<noteq> taskID (task td)))
          \<and> j < length (taskStatuses s) \<and> statusTaskID (taskStatuses s ! j) = taskID (task td)
          \<and> (\<forall>k'<j. statusTaskID (taskStatuses s ! k') \<noteq> taskID (task td))"
  then have w: "waitingEntry td" by (simp add: waitingEntry_def)
  have "taskStatuses (fst (updateWaitingMessagesLoop clock 0 (tasks s) (s, False))) ! j =
     (taskStatuses s ! j)\<lparr>message :=
        (if statusPaused (taskStatuses s ! j) then ''Paused.''
         else if max 0 (int64 (nextRun td - clock k) sdiv 1000) = 0 then ''Waiting for thread.''
         else timeoutMessage (task td)
                @ to_string (max 0 (int64 (nextRun td - clock k) sdiv 1000)))\<rparr>"
    using updateWaitingMessagesLoop_status_at[of "tasks s" k "(s, False)" td j clock 0] assms a w
    by simp
  then show "taskStatuses (updateWaitingMessages clock s) ! j =
              (taskStatuses s ! j)\<lparr>message :=
                 (if statusPaused (taskStatuses s ! j) then ''Paused.''
                  else if int64 (nextRun td - clock k) < 1000 then ''Waiting for thread.''
                  else timeoutMessage (task td)
                         @ to_string (int64 (nextRun td - clock k) div 1000))\<rparr>"
    by (simp add: updateWaitingMessages_unfold taskStatusChanged_def whole_seconds_zero
        whole_seconds_pos)
next
  assume "INT64_MIN \<le> nextRun td - clock k \<and> nextRun td - clock k \<le> INT64_MAX"
  then show "int64 (nextRun td - clock k) = nextRun td - clock k"
    by (simp add: int64_representable)
next
  show "trace (updateWaitingMessages clock s) =
        trace s @
          (if \<exists>p\<in>set (tasks s). \<exists>td'. heap s p = Some td'
                 \<and> \<not> active td' \<and> (0 < nextRun td' \<or> paused (task td'))
                 \<and> taskID (task td') \<in> statusTaskID ` set (taskStatuses s)
           then [TaskStatusChanged] else [])"
    using updateWaitingMessagesLoop_changed[OF assms, of clock 0 "(s, False)"]
    by (simp add: updateWaitingMessages_unfold taskStatusChanged_def waitingEntry_def)
qed

theorem updateWaitingMessages_messages_witness:
  "distinct (tasks twoTasks)
   \<and> heap twoTasks (tasks twoTasks ! 0) =
        Some \<lparr>task = sampleTask 5 2500 4, nextRun = 3500, active = False\<rparr>
   \<and> statusTaskID (taskStatuses twoTasks ! 0) = taskID (sampleTask 5 2500 4)
   \<and> INT64_MIN \<le> 3500 - sampleClock 0 \<and> 3500 - sampleClock 0 \<le> INT64_MAX
   \<and> taskStatuses (updateWaitingMessages sampleClock twoTasks) ! 0 =
        (taskStatus (sampleTask 5 2500 4))\<lparr>message := ''Next run in 2''\<rparr>
   \<and> trace (updateWaitingMessages sampleClock twoTasks) = trace twoTasks @ [TaskStatusChanged]"
  using updateWaitingMessages_messages [of twoTasks 0
      "\<lparr>task = sampleTask 5 2500 4, nextRun = 3500, active = False\<rparr>" 0 sampleClock]
  by (simp add: twoTasks_eq sampleClock_def sampleTask_def to_string_def digits.simps
      INT64_MIN_def INT64_MAX_def int64_def)

text \<open>
  Claim C3 as stated fails in three ways.

  On the queue \<open>sweptOnce\<close> swept again at time 3100, task 5 is due at 3500, so it is not
  due, yet its message is \<open>Waiting for thread.\<close> and not the countdown with zero whole
  seconds; and no message text differs from the one before the sweep, yet the change
  notifier fires.

  On the queue \<open>markedPaused\<close>, where task 5 has pushed a status that is marked paused, the
  entry of task 5 is not paused and is due in 2400 ms, yet the sweep at time 1100 writes
  \<open>Paused.\<close> and not the countdown. On the queue \<open>pausedEntry\<close>, where task 7 has been
  paused through \<^verbatim>\<open>pauseTask\<close>, the entry is paused and its status is not marked paused, and
  the sweep writes \<open>Waiting for thread.\<close> and not \<open>Paused.\<close>
\<close>

lemma sweptOnce_eq:
  "sweptOnce =
     \<lparr>tasks = [0, 1], nextTaskIndex = 0, workDone = False, waitFor = INT64_MAX,
      taskStatuses = [(taskStatus (sampleTask 5 2500 4))\<lparr>message := ''Waiting for thread.''\<rparr>,
                      (taskStatus (sampleTask 7 0 3))\<lparr>message := ''Waiting for thread.''\<rparr>],
      numberOfTaskThreads = 2, numberOfActiveTaskThreads = 0, finish = False,
      heap = [0 \<mapsto> \<lparr>task = sampleTask 5 2500 4, nextRun = 3500, active = False\<rparr>,
              1 \<mapsto> \<lparr>task = sampleTask 7 0 3, nextRun = 0, active = False\<rparr>],
      trace = [SetTaskQueue 0, WakeOne, SetStatusChangedCallback 0, TaskStatusChanged,
               SetTaskQueue 1, WakeOne, SetStatusChangedCallback 1, TaskStatusChanged,
               TaskStatusChanged]\<rparr>"
  by (simp add: sweptOnce_def twoTasks_eq updateWaitingMessages_def updateWaitingMessage_def
      Let_def sampleTask_def lateClock_def taskStatusChanged_def emit_def signed_divide_int_def
      fun_upd_twist int64_def)

lemma markedPaused_eq:
  "markedPaused = twoTasks\<lparr>taskStatuses := [pausedPush\<lparr>statusRev := 4\<rparr>, taskStatus (sampleTask 7 0 3)],
                           trace := trace twoTasks @ [TaskStatusChanged]\<rparr>"
  by (simp add: markedPaused_def statusChangedCallback_def taskStatusChanged_def emit_def
      twoTasks_eq pausedPush_def sampleTask_def)

lemma pausedEntry_eq:
  "pausedEntry =
     twoTasks\<lparr>heap := [0 \<mapsto> \<lparr>task = sampleTask 5 2500 4, nextRun = 3500, active = False\<rparr>,
                        1 \<mapsto> \<lparr>task = (sampleTask 7 0 3)\<lparr>paused := True\<rparr>, nextRun = 1000,
                               active = False\<rparr>],
              trace := trace twoTasks @ [SetPaused 1 True, WakeAll]\<rparr>"
  by (simp add: pausedEntry_def pauseTask_def twoTasks_eq emit_def setPaused_def sampleTask_def)

theorem housekeeping_counterexample:
  "heap sweptOnce 0 = Some \<lparr>task = sampleTask 5 2500 4, nextRun = 3500, active = False\<rparr>
   \<and> lateClock 0 < 3500
   \<and> message (taskStatuses (updateWaitingMessages lateClock sweptOnce) ! 0) = ''Waiting for thread.''
   \<and> ''Waiting for thread.'' \<noteq> timeoutMessage (sampleTask 5 2500 4) @ to_string ((3500 - lateClock 0) div 1000)
   \<and> map message (taskStatuses (updateWaitingMessages lateClock sweptOnce)) =
       map message (taskStatuses sweptOnce)
   \<and> trace (updateWaitingMessages lateClock sweptOnce) = trace sweptOnce @ [TaskStatusChanged]
   \<and> map_option (\<lambda>td. (taskID (task td), paused (task td), active td, nextRun td))
         (heap markedPaused 0) = Some (5, False, False, 3500)
   \<and> map statusTaskID (taskStatuses markedPaused) = [5, 7]
   \<and> message (taskStatuses (updateWaitingMessages sampleClock markedPaused) ! 0) = ''Paused.''
   \<and> ''Paused.'' \<noteq> timeoutMessage (sampleTask 5 2500 4) @ to_string ((3500 - sampleClock 0) div 1000)
   \<and> map_option (\<lambda>td. (taskID (task td), paused (task td), active td, nextRun td))
         (heap pausedEntry 1) = Some (7, True, False, 1000)
   \<and> map statusTaskID (taskStatuses pausedEntry) = [5, 7]
   \<and> message (taskStatuses (updateWaitingMessages sampleClock pausedEntry) ! 1)
        = ''Waiting for thread.''"
  by (simp add: sweptOnce_eq markedPaused_eq pausedEntry_eq twoTasks_eq pausedPush_def
      updateWaitingMessages_def updateWaitingMessage_def
      Let_def sampleTask_def lateClock_def sampleClock_def taskStatusChanged_def emit_def
      signed_divide_int_def int64_def to_string_def digits.simps)

section \<open>The dispatch sweep\<close>

text \<open>The state in which a worker that ran a task reaches the end-of-list test.\<close>

lemma afterPerformTask_frame [simp]:
  "trace (snd (afterPerformTask now r p s)) = trace s"
  "workDone (snd (afterPerformTask now r p s)) = workDone s"
  "waitFor (snd (afterPerformTask now r p s)) = waitFor s"
  "finish (snd (afterPerformTask now r p s)) = finish s"
  "numberOfTaskThreads (snd (afterPerformTask now r p s)) = numberOfTaskThreads s"
  "numberOfActiveTaskThreads (snd (afterPerformTask now r p s)) = numberOfActiveTaskThreads s"
  by (simp_all add: afterPerformTask_def Let_def split: option.splits)

lemma finishTask_frame [simp]:
  "tasks (finishTask p s) = tasks s"
  "nextTaskIndex (finishTask p s) = nextTaskIndex s"
  "workDone (finishTask p s) = workDone s"
  "waitFor (finishTask p s) = waitFor s"
  "finish (finishTask p s) = finish s"
  "taskStatuses (finishTask p s) = taskStatuses s"
  "numberOfTaskThreads (finishTask p s) = numberOfTaskThreads s"
  "numberOfActiveTaskThreads (finishTask p s) = numberOfActiveTaskThreads s"
  by (simp_all add: finishTask_def Let_def split: option.splits)

lemma endOfSweep_at_end:
  "length (tasks s) \<le> nextTaskIndex s \<Longrightarrow>
   endOfSweep s =
     (if workDone s then (Resweep, s\<lparr>nextTaskIndex := 0, waitFor := INT64_MAX, workDone := False\<rparr>)
      else (Sleep (waitFor s),
            s\<lparr>nextTaskIndex := 0, waitFor := INT64_MAX, trace := trace s @ [Wait (waitFor s)]\<rparr>))"
  by (simp add: endOfSweep_def Let_def emit_def)

lemma endOfSweep_before_end:
  "nextTaskIndex s < length (tasks s) \<Longrightarrow> endOfSweep s = (Continue, s)"
  by (simp add: endOfSweep_def)


section \<open>The threads together: what each operation does\<close>

lemma deleted_append [simp]: "deleted (xs @ ys) = deleted xs @ deleted ys"
  by (induction xs rule: deleted.induct) auto

lemma entry_emit [simp]:
  "entryActive (emit es s) = entryActive s"
  "entryID (emit es s) = entryID s"
  by (simp_all add: entryActive_def entryID_def fun_eq_iff)

lemma entry_fields [simp]:
  "entryActive (s\<lparr>tasks := a\<rparr>) = entryActive s"
  "entryActive (s\<lparr>nextTaskIndex := b\<rparr>) = entryActive s"
  "entryActive (s\<lparr>workDone := c\<rparr>) = entryActive s"
  "entryActive (s\<lparr>waitFor := d\<rparr>) = entryActive s"
  "entryActive (s\<lparr>taskStatuses := e\<rparr>) = entryActive s"
  "entryActive (s\<lparr>numberOfTaskThreads := f\<rparr>) = entryActive s"
  "entryActive (s\<lparr>numberOfActiveTaskThreads := g\<rparr>) = entryActive s"
  "entryActive (s\<lparr>finish := h\<rparr>) = entryActive s"
  "entryActive (s\<lparr>trace := i\<rparr>) = entryActive s"
  "entryID (s\<lparr>tasks := a\<rparr>) = entryID s"
  "entryID (s\<lparr>nextTaskIndex := b\<rparr>) = entryID s"
  "entryID (s\<lparr>workDone := c\<rparr>) = entryID s"
  "entryID (s\<lparr>waitFor := d\<rparr>) = entryID s"
  "entryID (s\<lparr>taskStatuses := e\<rparr>) = entryID s"
  "entryID (s\<lparr>numberOfTaskThreads := f\<rparr>) = entryID s"
  "entryID (s\<lparr>numberOfActiveTaskThreads := g\<rparr>) = entryID s"
  "entryID (s\<lparr>finish := h\<rparr>) = entryID s"
  "entryID (s\<lparr>trace := i\<rparr>) = entryID s"
  by (simp_all add: entryActive_def entryID_def fun_eq_iff)

lemma entry_heap_eq:
  "heap s' = heap s \<Longrightarrow> entryActive s' = entryActive s \<and> entryID s' = entryID s"
  by (auto simp: entryActive_def entryID_def fun_eq_iff)

lemma entryActive_upd:
  "entryActive (s\<lparr>heap := (heap s)(p \<mapsto> td)\<rparr>) = (entryActive s)(p \<mapsto> active td)"
  by (auto simp: entryActive_def fun_eq_iff)

lemma entryID_upd:
  "entryID (s\<lparr>heap := (heap s)(p \<mapsto> td)\<rparr>) = (entryID s)(p \<mapsto> taskID (task td))"
  by (auto simp: entryID_def fun_eq_iff)

lemma entry_same_upd:
  "heap s p = Some td \<Longrightarrow> active td' = active td \<Longrightarrow>
   entryActive (s\<lparr>heap := (heap s)(p \<mapsto> td')\<rparr>) = entryActive s"
  "heap s p = Some td \<Longrightarrow> taskID (task td') = taskID (task td) \<Longrightarrow>
   entryID (s\<lparr>heap := (heap s)(p \<mapsto> td')\<rparr>) = entryID s"
  by (auto simp: entryActive_def entryID_def fun_eq_iff)

text \<open>Submission.\<close>

lemma addTask_obs [simp]:
  "tasks (addTask now p t s) = tasks s @ [p]"
  "entryActive (addTask now p t s) = (entryActive s)(p \<mapsto> False)"
  "entryID (addTask now p t s) = (entryID s)(p \<mapsto> taskID t)"
  "deleted (trace (addTask now p t s)) = deleted (trace s)"
  "numberOfActiveTaskThreads (addTask now p t s) = numberOfActiveTaskThreads s"
  "finish (addTask now p t s) = finish s"
  by (auto simp: addTask_def Let_def taskStatusChanged_def emit_def entryActive_def entryID_def
      fun_eq_iff)

text \<open>Cancelling and pausing.\<close>

lemma cancelTaskLoop_obs [simp]:
  "tasks (cancelTaskLoop tid ps s) = tasks s"
  "entryActive (cancelTaskLoop tid ps s) = entryActive s"
  "entryID (cancelTaskLoop tid ps s) = entryID s"
  "deleted (trace (cancelTaskLoop tid ps s)) = deleted (trace s)"
  "numberOfActiveTaskThreads (cancelTaskLoop tid ps s) = numberOfActiveTaskThreads s"
  "finish (cancelTaskLoop tid ps s) = finish s"
  by (induction ps; simp split: option.splits)+

lemma pauseTaskLoop_obs [simp]:
  "tasks (pauseTaskLoop tid b ps s) = tasks s"
  "entryActive (pauseTaskLoop tid b ps s) = entryActive s"
  "entryID (pauseTaskLoop tid b ps s) = entryID s"
  "deleted (trace (pauseTaskLoop tid b ps s)) = deleted (trace s)"
  "numberOfActiveTaskThreads (pauseTaskLoop tid b ps s) = numberOfActiveTaskThreads s"
  "finish (pauseTaskLoop tid b ps s) = finish s"
  by (induction ps; simp add: entry_same_upd setPaused_def split: option.splits)+

lemma togglePauseTaskLoop_obs [simp]:
  "tasks (togglePauseTaskLoop tid ps s) = tasks s"
  "entryActive (togglePauseTaskLoop tid ps s) = entryActive s"
  "entryID (togglePauseTaskLoop tid ps s) = entryID s"
  "deleted (trace (togglePauseTaskLoop tid ps s)) = deleted (trace s)"
  "numberOfActiveTaskThreads (togglePauseTaskLoop tid ps s) = numberOfActiveTaskThreads s"
  "finish (togglePauseTaskLoop tid ps s) = finish s"
  by (induction ps; simp add: entry_same_upd setPaused_def split: option.splits)+

lemma statusChangedCallback_obs [simp]:
  "tasks (statusChangedCallback pushed s) = tasks s"
  "entryActive (statusChangedCallback pushed s) = entryActive s"
  "entryID (statusChangedCallback pushed s) = entryID s"
  "deleted (trace (statusChangedCallback pushed s)) = deleted (trace s)"
  "numberOfActiveTaskThreads (statusChangedCallback pushed s) = numberOfActiveTaskThreads s"
  "finish (statusChangedCallback pushed s) = finish s"
  by (simp_all add: statusChangedCallback_def taskStatusChanged_def)

text \<open>The housekeeping sweep.\<close>

lemma updateWaitingMessagesLoop_entries [simp]:
  "entryActive (fst (updateWaitingMessagesLoop clock i ps sc)) = entryActive (fst sc)"
  "entryID (fst (updateWaitingMessagesLoop clock i ps sc)) = entryID (fst sc)"
proof -
  have one: "\<And>now p sc. entryActive (fst (updateWaitingMessage now p sc)) = entryActive (fst sc)
      \<and> entryID (fst (updateWaitingMessage now p sc)) = entryID (fst sc)"
    by (auto simp: entryActive_def entryID_def fun_eq_iff updateWaitingMessage_heap
        option.map_comp comp_def split: option.splits)
  show "entryActive (fst (updateWaitingMessagesLoop clock i ps sc)) = entryActive (fst sc)"
    by (induction ps arbitrary: i sc) (simp_all add: one)
  show "entryID (fst (updateWaitingMessagesLoop clock i ps sc)) = entryID (fst sc)"
    by (induction ps arbitrary: i sc) (simp_all add: one)
qed

lemma updateWaitingMessages_obs [simp]:
  "tasks (updateWaitingMessages clock s) = tasks s"
  "entryActive (updateWaitingMessages clock s) = entryActive s"
  "entryID (updateWaitingMessages clock s) = entryID s"
  "deleted (trace (updateWaitingMessages clock s)) = deleted (trace s)"
  "numberOfActiveTaskThreads (updateWaitingMessages clock s) = numberOfActiveTaskThreads s"
  "finish (updateWaitingMessages clock s) = finish s"
  by (simp_all add: updateWaitingMessages_unfold taskStatusChanged_def)

text \<open>The pool.\<close>

lemma addThreadsLoop_obs:
  "tasks (fst (addThreadsLoop s k)) = tasks s
   \<and> heap (fst (addThreadsLoop s k)) = heap s
   \<and> trace (fst (addThreadsLoop s k)) = trace s
   \<and> finish (fst (addThreadsLoop s k)) = finish s
   \<and> numberOfActiveTaskThreads (fst (addThreadsLoop s k))
       = max (numberOfActiveTaskThreads s) (numberOfTaskThreads s)
   \<and> snd (addThreadsLoop s k) = k + (numberOfTaskThreads s - numberOfActiveTaskThreads s)"
proof (induction s k rule: addThreadsLoop.induct)
  case (1 s started)
  show ?case
  proof (cases "numberOfActiveTaskThreads s < numberOfTaskThreads s")
    case True
    with 1 show ?thesis by (subst (1 2 3 4 5 6) addThreadsLoop.simps) auto
  next
    case False
    then show ?thesis by (subst (1 2 3 4 5 6) addThreadsLoop.simps) auto
  qed
qed

lemma setNumberOfTaskThreads_obs [simp]:
  "tasks (fst (setNumberOfTaskThreads n s)) = tasks s"
  "entryActive (fst (setNumberOfTaskThreads n s)) = entryActive s"
  "entryID (fst (setNumberOfTaskThreads n s)) = entryID s"
  "deleted (trace (fst (setNumberOfTaskThreads n s))) = deleted (trace s)"
  "finish (fst (setNumberOfTaskThreads n s)) = finish s"
  "numberOfActiveTaskThreads (fst (setNumberOfTaskThreads n s)) = max (numberOfActiveTaskThreads s) n"
  "snd (setNumberOfTaskThreads n s) = n - numberOfActiveTaskThreads s"
  using addThreadsLoop_obs[of "s\<lparr>numberOfTaskThreads := n\<rparr>" 0]
  by (simp_all add: setNumberOfTaskThreads_def addThreads_def split_beta entryActive_def
      entryID_def fun_eq_iff)

text \<open>The worker.\<close>

lemma endOfSweep_obs [simp]:
  "tasks (snd (endOfSweep s)) = tasks s"
  "heap (snd (endOfSweep s)) = heap s"
  "entryActive (snd (endOfSweep s)) = entryActive s"
  "entryID (snd (endOfSweep s)) = entryID s"
  "deleted (trace (snd (endOfSweep s))) = deleted (trace s)"
  "numberOfActiveTaskThreads (snd (endOfSweep s)) = numberOfActiveTaskThreads s"
  "finish (snd (endOfSweep s)) = finish s"
  "fst (endOfSweep s) \<noteq> Exit"
  "fst (endOfSweep s) \<noteq> Dispatch p"
  by (simp_all add: endOfSweep_def Let_def)

lemma workerIteration_obs [simp]:
  "tasks (snd (workerIteration now s)) = tasks s"
  "entryID (snd (workerIteration now s)) = entryID s"
  "deleted (trace (snd (workerIteration now s))) = deleted (trace s)"
  "finish (snd (workerIteration now s)) = finish s"
  by (auto simp: workerIteration_def Let_def leaveLoop_def entryID_def fun_eq_iff
      split: option.splits)

lemma workerIteration_dispatches:
  assumes "fst (workerIteration now s) = Dispatch p"
  shows "p \<in> set (tasks s)" and "entryActive s p = Some False"
    and "entryActive (snd (workerIteration now s)) = (entryActive s)(p \<mapsto> True)"
    and "numberOfActiveTaskThreads (snd (workerIteration now s)) = numberOfActiveTaskThreads s"
  using assms
  by (auto simp: workerIteration_def Let_def entryActive_def fun_eq_iff
      split: option.splits if_splits)

lemma workerIteration_exits:
  assumes "fst (workerIteration now s) = Exit"
  shows "entryActive (snd (workerIteration now s)) = entryActive s"
    and "numberOfActiveTaskThreads (snd (workerIteration now s)) = numberOfActiveTaskThreads s - 1"
  using assms
  by (auto simp: workerIteration_def Let_def leaveLoop_def
      split: option.splits if_splits)

lemma workerIteration_goes_on:
  assumes "fst (workerIteration now s) \<noteq> Exit" and "\<forall>p. fst (workerIteration now s) \<noteq> Dispatch p"
  shows "entryActive (snd (workerIteration now s)) = entryActive s"
    and "numberOfActiveTaskThreads (snd (workerIteration now s)) = numberOfActiveTaskThreads s"
  using assms
  by (auto simp: workerIteration_def Let_def
      split: option.splits if_splits)

lemma beginPerformTask_obs [simp]:
  "tasks (beginPerformTask p s) = tasks s"
  "entryActive (beginPerformTask p s) = entryActive s"
  "entryID (beginPerformTask p s) = entryID s"
  "deleted (trace (beginPerformTask p s)) = deleted (trace s)"
  "numberOfActiveTaskThreads (beginPerformTask p s) = numberOfActiveTaskThreads s"
  "finish (beginPerformTask p s) = finish s"
  by (simp_all add: beginPerformTask_def)

lemma afterPerformTask_obs [simp]:
  "entryID (snd (afterPerformTask now r p s)) = entryID s"
  "deleted (trace (snd (afterPerformTask now r p s))) = deleted (trace s)"
  by (auto simp: afterPerformTask_def Let_def entryID_def fun_eq_iff split: option.splits)

lemma afterPerformTask_removed:
  assumes "fst (afterPerformTask now r p s)"
  shows "tasks (snd (afterPerformTask now r p s)) = remove1 p (tasks s)"
    and "entryActive (snd (afterPerformTask now r p s)) = entryActive s"
  using assms
  by (auto simp: afterPerformTask_def Let_def entryActive_def fun_eq_iff eraseTask_tasks
      split: option.splits if_splits)

lemma afterPerformTask_kept:
  assumes "\<not> fst (afterPerformTask now r p s)" and "entryActive s p \<noteq> None"
  shows "tasks (snd (afterPerformTask now r p s)) = tasks s"
    and "entryActive (snd (afterPerformTask now r p s)) = (entryActive s)(p \<mapsto> False)"
  using assms
  by (auto simp: afterPerformTask_def Let_def entryActive_def fun_eq_iff
      split: option.splits if_splits)

lemma finishTask_obs [simp]:
  "entryActive (finishTask p s) = (entryActive s)(p := None)"
  "deleted (trace (finishTask p s)) =
     deleted (trace s) @ (if entryActive s p = None then [] else [p])"
  by (auto simp: finishTask_def Let_def entryActive_def fun_eq_iff split: option.splits)

lemma finishTask_entryID:
  "entryID (finishTask p s) = (entryID s)(p := None)"
  by (auto simp: finishTask_def Let_def entryID_def fun_eq_iff split: option.splits)

text \<open>The destructor.\<close>

lemma setFinish_obs [simp]:
  "tasks (setFinish s) = tasks s"
  "entryActive (setFinish s) = entryActive s"
  "entryID (setFinish s) = entryID s"
  "trace (setFinish s) = trace s"
  "numberOfActiveTaskThreads (setFinish s) = numberOfActiveTaskThreads s"
  "finish (setFinish s)"
  by (simp_all add: setFinish_def)

lemma cancelTasks_obs [simp]:
  "tasks (cancelTasks ps s) = tasks s"
  "entryActive (cancelTasks ps s) = entryActive s"
  "entryID (cancelTasks ps s) = entryID s"
  "trace (cancelTasks ps s) = trace s @ map CancelTask ps"
  "numberOfActiveTaskThreads (cancelTasks ps s) = numberOfActiveTaskThreads s"
  "finish (cancelTasks ps s) = finish s"
  by (induction ps arbitrary: s; simp)+

lemma deleted_CancelTask [simp]: "deleted (map CancelTask ps) = []"
  by (induction ps) auto

lemma deleteTasks_obs:
  "tasks (deleteTasks ps s) = tasks s"
  "numberOfActiveTaskThreads (deleteTasks ps s) = numberOfActiveTaskThreads s"
  "finish (deleteTasks ps s) = finish s"
  "entryActive (deleteTasks ps s) = (\<lambda>p. if p \<in> set ps then None else entryActive s p)"
  "deleted (trace (deleteTasks ps s)) = deleted (trace s) @ ps"
  by (induction ps arbitrary: s; auto simp: entryActive_def fun_eq_iff)+


section \<open>The invariants hold along every run\<close>

lemmas invariant_defs = invariant_def registryInv_def ownershipInv_def lifecycleInv_def idInv_def

lemma workerAt_simps [simp]:
  "workerAt (c\<lparr>shared := s\<rparr>) = workerAt c"
  "workerAt (c\<lparr>adminRunning := a\<rparr>) = workerAt c"
  "workerAt (c\<lparr>destructor := d\<rparr>) = workerAt c"
  "workerAt (c\<lparr>created := cr\<rparr>) = workerAt c"
  by (simp_all add: workerAt_def fun_eq_iff)

lemma workerAt_update:
  "workers c' = (workers c)[w := x] \<Longrightarrow> w < length (workers c) \<Longrightarrow>
   workerAt c' w' = (if w' = w then x else workerAt c w')"
  by (simp add: workerAt_def)

lemma workerAt_append:
  "workers c' = workers c @ replicate k AtLoopHead \<Longrightarrow>
   workerAt c' w =
     (if w < length (workers c) then workerAt c w
      else if w < length (workers c) + k then AtLoopHead else Gone)"
  by (simp add: workerAt_def nth_append)

lemma holds_simps [simp]:
  "holds AtLoopHead p = False" "holds Relocking p = False" "holds Gone p = False"
  "holds (Removed q) p = False"
  "holds (Dispatched q) p \<longleftrightarrow> q = p" "holds (Running q) p \<longleftrightarrow> q = p"
  "owns AtLoopHead p = False" "owns Relocking p = False" "owns Gone p = False"
  "owns (Removed q) p \<longleftrightarrow> q = p"
  "owns (Dispatched q) p \<longleftrightarrow> q = p" "owns (Running q) p \<longleftrightarrow> q = p"
  by (auto simp: holds_def owns_def)

lemma count_update:
  "w < length ws \<Longrightarrow>
   length (filter (\<lambda>x. x \<noteq> Gone) (ws[w := x])) + (if ws ! w \<noteq> Gone then 1 else 0) =
   length (filter (\<lambda>x. x \<noteq> Gone) ws) + (if x \<noteq> Gone then 1 else 0)"
proof (induction ws arbitrary: w)
  case Nil
  then show ?case by simp
next
  case (Cons y ys)
  show ?case
  proof (cases w)
    case 0
    then show ?thesis by simp
  next
    case (Suc w')
    with Cons.prems have "w' < length ys" by simp
    from Cons.IH[OF this] Suc show ?thesis by (auto split: if_splits)
  qed
qed

lemma all_gone:
  "length (filter (\<lambda>x. x \<noteq> Gone) (workers c)) = 0 \<Longrightarrow> workerAt c w = Gone"
  by (auto simp: workerAt_def filter_empty_conv)

text \<open>The parts of the invariants, one by one.\<close>

lemma registryInvD:
  assumes "registryInv c"
  shows "distinct (tasks (shared c))"
    and "entryActive (shared c) p \<noteq> None \<longleftrightarrow>
           p \<in> set (tasks (shared c)) \<or> (\<exists>w. workerAt c w = Removed p)"
    and "workerAt c w = Removed p \<Longrightarrow> p \<notin> set (tasks (shared c))"
    and "holds (workerAt c w) p \<Longrightarrow> p \<in> set (tasks (shared c))"
    and "holds (workerAt c w) p \<Longrightarrow> entryActive (shared c) p = Some True"
    and "p \<in> set (tasks (shared c)) \<Longrightarrow> entryActive (shared c) p = Some True \<Longrightarrow>
           \<exists>w. holds (workerAt c w) p"
    and "owns (workerAt c w1) p \<Longrightarrow> owns (workerAt c w2) p \<Longrightarrow> w1 = w2"
  using assms unfolding registryInv_def by blast+

lemma registryInvI:
  assumes "distinct (tasks (shared c))"
    and "\<And>p. entryActive (shared c) p \<noteq> None \<longleftrightarrow>
           p \<in> set (tasks (shared c)) \<or> (\<exists>w. workerAt c w = Removed p)"
    and "\<And>w p. workerAt c w = Removed p \<Longrightarrow> p \<notin> set (tasks (shared c))"
    and "\<And>w p. holds (workerAt c w) p \<Longrightarrow>
           p \<in> set (tasks (shared c)) \<and> entryActive (shared c) p = Some True"
    and "\<And>p. p \<in> set (tasks (shared c)) \<Longrightarrow> entryActive (shared c) p = Some True \<Longrightarrow>
           \<exists>w. holds (workerAt c w) p"
    and "\<And>w1 w2 p. owns (workerAt c w1) p \<Longrightarrow> owns (workerAt c w2) p \<Longrightarrow> w1 = w2"
  shows "registryInv c"
  unfolding registryInv_def using assms by blast

lemma ownershipInvD:
  assumes "ownershipInv c"
  shows "entryActive (shared c) p \<noteq> None \<Longrightarrow> p \<in> set (created c)"
    and "distinct (deleted (trace (shared c)))"
    and "set (deleted (trace (shared c))) = {p \<in> set (created c). entryActive (shared c) p = None}"
  using assms unfolding ownershipInv_def by blast+

lemma lifecycleInvD:
  assumes "lifecycleInv c"
  shows "numberOfActiveTaskThreads (shared c) = length (filter (\<lambda>x. x \<noteq> Gone) (workers c))"
    and "finish (shared c) \<longleftrightarrow> destructor c \<noteq> Alive"
    and "destructor c = Joining \<or> destructor c = Destroyed \<Longrightarrow> workerAt c w = Gone"
    and "destructor c = Destroyed \<Longrightarrow> \<not> adminRunning c"
    and "destructor c = Destroyed \<Longrightarrow> entryActive (shared c) p = None"
  using assms unfolding lifecycleInv_def by blast+

lemma invariantD:
  assumes "invariant c"
  shows "destructor c \<noteq> Destroyed \<Longrightarrow> registryInv c"
    and "ownershipInv c" and "lifecycleInv c" and "idInv c"
  using assms unfolding invariant_def by blast+

text \<open>Steps that leave the entries, the registry, the deletions and the workers alone.\<close>

lemma registryInv_same:
  assumes "registryInv c"
    and "tasks (shared c') = tasks (shared c)"
    and "entryActive (shared c') = entryActive (shared c)"
    and "workerAt c' = workerAt c"
  shows "registryInv c'"
  using assms unfolding registryInv_def by simp

lemma ownershipInv_same:
  assumes "ownershipInv c"
    and "entryActive (shared c') = entryActive (shared c)"
    and "deleted (trace (shared c')) = deleted (trace (shared c))"
    and "created c' = created c"
  shows "ownershipInv c'"
  using assms unfolding ownershipInv_def by simp

lemma idInv_same:
  assumes "idInv c" and "entryID (shared c') = entryID (shared c)"
  shows "idInv c'"
  using assms unfolding idInv_def by simp

lemma lifecycleInv_same:
  assumes "lifecycleInv c"
    and "numberOfActiveTaskThreads (shared c') = numberOfActiveTaskThreads (shared c)"
    and "finish (shared c') = finish (shared c)"
    and "entryActive (shared c') = entryActive (shared c)"
    and "workers c' = workers c" and "workerAt c' = workerAt c"
    and "destructor c' = destructor c" and "adminRunning c' = adminRunning c"
  shows "lifecycleInv c'"
  using assms unfolding lifecycleInv_def by simp

lemma invariant_shared_only:
  assumes "invariant c"
    and "tasks s = tasks (shared c)" and "entryActive s = entryActive (shared c)"
    and "entryID s = entryID (shared c)"
    and "deleted (trace s) = deleted (trace (shared c))"
    and "numberOfActiveTaskThreads s = numberOfActiveTaskThreads (shared c)"
    and "finish s = finish (shared c)"
  shows "invariant (c\<lparr>shared := s\<rparr>)"
  unfolding invariant_def
proof (intro conjI impI)
  assume "destructor (c\<lparr>shared := s\<rparr>) \<noteq> Destroyed"
  then have "registryInv c" using invariantD(1)[OF assms(1)] by simp
  then show "registryInv (c\<lparr>shared := s\<rparr>)" by (rule registryInv_same) (simp_all add: assms)
next
  show "ownershipInv (c\<lparr>shared := s\<rparr>)"
    by (rule ownershipInv_same[OF invariantD(2)[OF assms(1)]]) (simp_all add: assms)
  show "lifecycleInv (c\<lparr>shared := s\<rparr>)"
    by (rule lifecycleInv_same[OF invariantD(3)[OF assms(1)]]) (simp_all add: assms)
  show "idInv (c\<lparr>shared := s\<rparr>)"
    by (rule idInv_same[OF invariantD(4)[OF assms(1)]]) (simp_all add: assms)
qed

lemma step_Cancel: "invariant c \<Longrightarrow> step (Cancel tid) c = Some c' \<Longrightarrow> invariant c'"
  by (auto simp: cancelTask_def split: if_splits intro!: invariant_shared_only)

lemma step_Pause: "invariant c \<Longrightarrow> step (Pause tid b) c = Some c' \<Longrightarrow> invariant c'"
  by (auto simp: pauseTask_def split: if_splits intro!: invariant_shared_only)

lemma step_TogglePause: "invariant c \<Longrightarrow> step (TogglePause tid) c = Some c' \<Longrightarrow> invariant c'"
  by (auto simp: togglePauseTask_def split: if_splits intro!: invariant_shared_only)

lemma step_Push: "invariant c \<Longrightarrow> step (Push pushed) c = Some c' \<Longrightarrow> invariant c'"
  by (auto split: if_splits intro!: invariant_shared_only)

lemma step_Housekeep: "invariant c \<Longrightarrow> step (Housekeep clock) c = Some c' \<Longrightarrow> invariant c'"
  by (auto split: if_splits intro!: invariant_shared_only)

lemma step_TaskChanges: "invariant c \<Longrightarrow> step (TaskChanges p t) c = Some c' \<Longrightarrow> invariant c'"
  by (auto simp: entry_same_upd split: option.splits if_splits intro!: invariant_shared_only)

lemma step_AdminLeaves:
  assumes "invariant c" and "step AdminLeaves c = Some c'"
  shows "invariant c'"
proof -
  from assms(2) have c': "c' = c\<lparr>adminRunning := False\<rparr>" by (auto split: if_splits)
  show ?thesis
    unfolding invariant_def c'
    using invariantD[OF assms(1)]
    by (auto intro: registryInv_same ownershipInv_same idInv_same simp: lifecycleInv_def)
qed

lemma step_DestroyStart:
  assumes "invariant c" and "step DestroyStart c = Some c'"
  shows "invariant c'"
proof -
  from assms(2) have a: "destructor c = Alive"
    and c': "c' = c\<lparr>shared := setFinish (shared c), destructor := FinishSet\<rparr>"
    by (auto split: if_splits)
  show ?thesis
    unfolding invariant_def c'
    using invariantD[OF assms(1)] a
    by (auto intro: registryInv_same ownershipInv_same idInv_same simp: lifecycleInv_def)
qed

lemma step_DestroyCancel:
  assumes "invariant c" and "step DestroyCancel c = Some c'"
  shows "invariant c'"
proof -
  from assms(2) have a: "destructor c = FinishSet"
    and c': "c' = c\<lparr>shared := destructorCancel (shared c), destructor := Waiting\<rparr>"
    by (auto split: if_splits)
  show ?thesis
    unfolding invariant_def c'
    using invariantD[OF assms(1)] a
    by (auto intro: registryInv_same ownershipInv_same idInv_same
        simp: lifecycleInv_def destructorCancel_def)
qed

lemma step_DestroyWorkersGone:
  assumes "invariant c" and "step DestroyWorkersGone c = Some c'"
  shows "invariant c'"
proof -
  from assms(2) have a: "destructor c = Waiting" "numberOfActiveTaskThreads (shared c) = 0"
    and c': "c' = c\<lparr>destructor := Joining\<rparr>"
    by (auto split: if_splits)
  have "\<And>w. workerAt c w = Gone"
    using a(2) lifecycleInvD(1)[OF invariantD(3)[OF assms(1)]] by (simp add: all_gone)
  then show ?thesis
    unfolding invariant_def c'
    using invariantD[OF assms(1)] a
    by (auto intro: registryInv_same ownershipInv_same idInv_same simp: lifecycleInv_def)
qed


text \<open>Steps of a worker.\<close>

lemma holds_other:
  assumes "\<And>w'. workerAt c' w' = (if w' = w then x else workerAt c w')"
    and "\<exists>w0. holds (workerAt c w0) q" and "\<not> holds (workerAt c w) q"
  shows "\<exists>w'. holds (workerAt c' w') q"
  using assms by metis

lemma removed_same:
  assumes "\<And>w'. workerAt c' w' = (if w' = w then x else workerAt c w')"
    and "workerAt c w \<noteq> Removed q" and "x \<noteq> Removed q"
  shows "(\<exists>w'. workerAt c' w' = Removed q) \<longleftrightarrow> (\<exists>w'. workerAt c w' = Removed q)"
  using assms by (metis (full_types))

lemma worker_not_gone:
  assumes "lifecycleInv c" and "w < length (workers c)" and "workers c ! w \<noteq> Gone"
  shows "destructor c \<noteq> Destroyed" and "destructor c \<noteq> Joining"
  using lifecycleInvD(3)[OF assms(1), of w] assms(2,3) by (auto simp: workerAt_def)

lemma lifecycleInv_worker:
  assumes "lifecycleInv c" and "w < length (workers c)" and "workers c ! w \<noteq> Gone"
    and "numberOfActiveTaskThreads s + (if x = Gone then 1 else 0)
           = numberOfActiveTaskThreads (shared c)"
    and "finish s = finish (shared c)"
  shows "lifecycleInv (c\<lparr>shared := s, workers := (workers c)[w := x]\<rparr>)"
proof -
  note nd = worker_not_gone[OF assms(1,2,3)]
  have "numberOfActiveTaskThreads s = length (filter (\<lambda>x. x \<noteq> Gone) ((workers c)[w := x]))"
    using count_update[OF assms(2), of x] assms(3,4) lifecycleInvD(1)[OF assms(1)]
    by (auto split: if_splits)
  then show ?thesis
    using nd lifecycleInvD(2)[OF assms(1)] assms(5) unfolding lifecycleInv_def by simp
qed

lemma ownershipInv_live:
  assumes "ownershipInv c"
    and "\<And>p. entryActive (shared c') p = None \<longleftrightarrow> entryActive (shared c) p = None"
    and "deleted (trace (shared c')) = deleted (trace (shared c))"
    and "created c' = created c"
  shows "ownershipInv c'"
  using assms unfolding ownershipInv_def by simp

lemma step_Scan:
  assumes inv: "invariant c" and st: "step (Scan w now) c = Some c'"
  shows "invariant c'"
proof -
  from st have w: "w < length (workers c)" and at: "workers c ! w = AtLoopHead"
    and c': "c' = scanStep w now c"
    by (auto split: if_splits)
  let ?s = "shared c"
  let ?out = "fst (workerIteration now ?s)"
  let ?s' = "snd (workerIteration now ?s)"
  let ?x = "case ?out of Dispatch p \<Rightarrow> Dispatched p | Exit \<Rightarrow> Gone | _ \<Rightarrow> AtLoopHead"
  have c'': "c' = c\<lparr>shared := ?s', workers := (workers c)[w := ?x]\<rparr>"
    by (simp add: c' scanStep_def split_beta)
  note L = invariantD(3)[OF inv]
  have ng: "workers c ! w \<noteq> Gone" using at by simp
  note nd = worker_not_gone[OF L w ng]
  have R: "registryInv c" using invariantD(1)[OF inv] nd by simp
  have wa: "workerAt c w = AtLoopHead" using w at by (simp add: workerAt_def)
  have wat: "\<And>w'. workerAt c' w' = (if w' = w then ?x else workerAt c w')"
    by (rule workerAt_update) (simp_all add: c'' w)
  show ?thesis
  proof (cases "\<exists>p. ?out = Dispatch p")
    case True
    then obtain p where out: "?out = Dispatch p" by blast
    note d = workerIteration_dispatches[OF out]
    have x: "?x = Dispatched p" by (simp add: out)
    have ea: "entryActive (shared c') = (entryActive ?s)(p \<mapsto> True)" by (simp add: c'' d(3))
    have tk: "tasks (shared c') = tasks ?s" by (simp add: c'')
    have "registryInv c'"
    proof (rule registryInvI)
      show "distinct (tasks (shared c'))" using registryInvD(1)[OF R] tk by simp
    next
      fix q
      show "entryActive (shared c') q \<noteq> None \<longleftrightarrow>
           q \<in> set (tasks (shared c')) \<or> (\<exists>w. workerAt c' w = Removed q)"
        using registryInvD(2)[OF R, of q] d(1,2) removed_same[of c' w ?x c q, OF wat]
        by (auto simp: ea tk wa x)
    next
      fix w' q assume "workerAt c' w' = Removed q"
      then show "q \<notin> set (tasks (shared c'))"
        using registryInvD(3)[OF R, of w' q] by (auto simp: tk wat x split: if_splits)
    next
      fix w' q assume "holds (workerAt c' w') q"
      then show "q \<in> set (tasks (shared c')) \<and> entryActive (shared c') q = Some True"
        using registryInvD(4,5)[OF R, of w' q] d(1)
        by (auto simp: tk wat x ea split: if_splits)
    next
      fix q assume "q \<in> set (tasks (shared c'))" "entryActive (shared c') q = Some True"
      then show "\<exists>w. holds (workerAt c' w) q"
      proof (cases "q = p")
        case True
        then have "holds (workerAt c' w) q" by (simp add: wat x)
        then show ?thesis ..
      next
        case False
        assume "q \<in> set (tasks (shared c'))" "entryActive (shared c') q = Some True"
        with False have "\<exists>w0. holds (workerAt c w0) q"
          using registryInvD(6)[OF R, of q] by (simp add: tk ea)
        then show ?thesis by (rule holds_other[OF wat]) (simp add: wa)
      qed
    next
      fix w1 w2 q assume "owns (workerAt c' w1) q" "owns (workerAt c' w2) q"
      then show "w1 = w2"
        using registryInvD(7)[OF R, of w1 q w2] registryInvD(3,5)[OF R, of w1 p]
          registryInvD(3,5)[OF R, of w2 p] d(1,2)
        by (auto simp: wat x owns_def split: if_splits)
    qed
    moreover have "ownershipInv c'"
    proof (rule ownershipInv_live[OF invariantD(2)[OF inv]])
      fix q show "entryActive (shared c') q = None \<longleftrightarrow> entryActive (shared c) q = None"
        using d(2) by (simp add: ea)
    qed (simp_all add: c'')
    moreover have "lifecycleInv c'"
      unfolding c'' by (rule lifecycleInv_worker[OF L w ng]) (simp_all add: d(4) x)
    moreover have "idInv c'"
      by (rule idInv_same[OF invariantD(4)[OF inv]]) (simp add: c'')
    ultimately show ?thesis by (simp add: invariant_def)
  next
    case False
    then have nodisp: "\<forall>p. ?out \<noteq> Dispatch p" by blast
    show ?thesis
    proof (cases "?out = Exit")
      case True
      note e = workerIteration_exits[OF True]
      have x: "?x = Gone" by (simp add: True)
      have "workers c ! w \<in> set (workers c)" using w by simp
      then have "\<exists>x\<in>set (workers c). x \<noteq> Gone" using at by force
      then have pos: "0 < numberOfActiveTaskThreads ?s"
        using lifecycleInvD(1)[OF L] by (simp add: filter_empty_conv)
      have ea: "entryActive (shared c') = entryActive ?s" by (simp add: c'' e(1))
      have tk: "tasks (shared c') = tasks ?s" by (simp add: c'')
      have "registryInv c'"
      proof (rule registryInvI)
        show "distinct (tasks (shared c'))" using registryInvD(1)[OF R] by (simp add: tk)
      next
        fix q
        show "entryActive (shared c') q \<noteq> None \<longleftrightarrow>
             q \<in> set (tasks (shared c')) \<or> (\<exists>w. workerAt c' w = Removed q)"
          using registryInvD(2)[OF R, of q] removed_same[of c' w ?x c q, OF wat]
          by (auto simp: ea tk wa x)
      next
        fix w' q assume "workerAt c' w' = Removed q"
        then show "q \<notin> set (tasks (shared c'))"
          using registryInvD(3)[OF R, of w' q] by (auto simp: tk wat x split: if_splits)
      next
        fix w' q assume "holds (workerAt c' w') q"
        then show "q \<in> set (tasks (shared c')) \<and> entryActive (shared c') q = Some True"
          using registryInvD(4,5)[OF R, of w' q]
          by (auto simp: tk ea wat x split: if_splits)
      next
        fix q assume "q \<in> set (tasks (shared c'))" "entryActive (shared c') q = Some True"
        then have "\<exists>w0. holds (workerAt c w0) q"
          using registryInvD(6)[OF R, of q] by (simp add: tk ea)
        then show "\<exists>w. holds (workerAt c' w) q"
          by (rule holds_other[OF wat]) (simp add: wa)
      next
        fix w1 w2 q assume "owns (workerAt c' w1) q" "owns (workerAt c' w2) q"
        then show "w1 = w2"
          using registryInvD(7)[OF R, of w1 q w2]
          by (auto simp: wat x split: if_splits)
      qed
      moreover have "ownershipInv c'"
        by (rule ownershipInv_live[OF invariantD(2)[OF inv]]) (simp_all add: c'' e(1))
      moreover have "lifecycleInv c'"
        unfolding c'' by (rule lifecycleInv_worker[OF L w ng]) (use pos in \<open>simp_all add: e(2) x\<close>)
      moreover have "idInv c'"
        by (rule idInv_same[OF invariantD(4)[OF inv]]) (simp add: c'')
      ultimately show ?thesis by (simp add: invariant_def)
    next
      case False
      note g = workerIteration_goes_on[OF False nodisp]
      have x: "?x = AtLoopHead" using False nodisp by (cases ?out) auto
      have same: "(workers c)[w := ?x] = workers c" using at x by (simp add: list_update_same_conv w)
      have "c' = c\<lparr>shared := ?s'\<rparr>" unfolding c'' same by simp
      then show ?thesis
        using invariant_shared_only[OF inv, of ?s'] g by simp
    qed
  qed
qed

lemma registryInv_worker_same:
  assumes R: "registryInv c"
    and wat: "\<And>w'. workerAt c' w' = (if w' = w then x else workerAt c w')"
    and tk: "tasks (shared c') = tasks (shared c)"
    and ea: "entryActive (shared c') = entryActive (shared c)"
    and h: "\<And>q. holds x q \<longleftrightarrow> holds (workerAt c w) q"
    and r: "\<And>q. x = Removed q \<longleftrightarrow> workerAt c w = Removed q"
  shows "registryInv c'"
proof -
  have 1: "\<And>w' q. holds (workerAt c' w') q \<longleftrightarrow> holds (workerAt c w') q"
    using h by (simp add: wat)
  have 2: "\<And>w' q. workerAt c' w' = Removed q \<longleftrightarrow> workerAt c w' = Removed q"
    using r by (simp add: wat)
  have 3: "\<And>w' q. owns (workerAt c' w') q \<longleftrightarrow> owns (workerAt c w') q"
    using 1 2 by (simp add: owns_def)
  show ?thesis using R unfolding registryInv_def by (simp add: 1 2 3 tk ea)
qed

lemma step_Begin:
  assumes inv: "invariant c" and st: "step (Begin w) c = Some c'"
  shows "invariant c'"
proof -
  from st obtain p where w: "w < length (workers c)" and at: "workers c ! w = Dispatched p"
    and c': "c' = c\<lparr>shared := beginPerformTask p (shared c), workers := (workers c)[w := Running p]\<rparr>"
    by (auto split: if_splits wstate.splits)
  note L = invariantD(3)[OF inv]
  have ng: "workers c ! w \<noteq> Gone" using at by simp
  note nd = worker_not_gone[OF L w ng]
  have R: "registryInv c" using invariantD(1)[OF inv] nd by simp
  have wa: "workerAt c w = Dispatched p" using w at by (simp add: workerAt_def)
  have wat: "\<And>w'. workerAt c' w' = (if w' = w then Running p else workerAt c w')"
    by (rule workerAt_update) (simp_all add: c' w)
  have "registryInv c'"
    by (rule registryInv_worker_same[OF R wat]) (simp_all add: c' wa)
  moreover have "ownershipInv c'"
    by (rule ownershipInv_live[OF invariantD(2)[OF inv]]) (simp_all add: c')
  moreover have "lifecycleInv c'"
    unfolding c' by (rule lifecycleInv_worker[OF L w ng]) simp_all
  moreover have "idInv c'"
    by (rule idInv_same[OF invariantD(4)[OF inv]]) (simp add: c')
  ultimately show ?thesis by (simp add: invariant_def)
qed

lemma step_Relock:
  assumes inv: "invariant c" and st: "step (Relock w) c = Some c'"
  shows "invariant c'"
proof -
  from st have w: "w < length (workers c)" and at: "workers c ! w = Relocking"
    and c': "c' = c\<lparr>shared := snd (endOfSweep (shared c)), workers := (workers c)[w := AtLoopHead]\<rparr>"
    by (auto split: if_splits)
  note L = invariantD(3)[OF inv]
  have ng: "workers c ! w \<noteq> Gone" using at by simp
  note nd = worker_not_gone[OF L w ng]
  have R: "registryInv c" using invariantD(1)[OF inv] nd by simp
  have wa: "workerAt c w = Relocking" using w at by (simp add: workerAt_def)
  have wat: "\<And>w'. workerAt c' w' = (if w' = w then AtLoopHead else workerAt c w')"
    by (rule workerAt_update) (simp_all add: c' w)
  have "registryInv c'"
    by (rule registryInv_worker_same[OF R wat]) (simp_all add: c' wa)
  moreover have "ownershipInv c'"
    by (rule ownershipInv_live[OF invariantD(2)[OF inv]]) (simp_all add: c')
  moreover have "lifecycleInv c'"
    unfolding c' by (rule lifecycleInv_worker[OF L w ng]) simp_all
  moreover have "idInv c'"
    by (rule idInv_same[OF invariantD(4)[OF inv]]) (simp add: c')
  ultimately show ?thesis by (simp add: invariant_def)
qed

lemma step_Return:
  assumes inv: "invariant c" and st: "step (Return w r now) c = Some c'"
  shows "invariant c'"
proof -
  from st obtain p where w: "w < length (workers c)" and at: "workers c ! w = Running p"
    and c': "c' = returnStep w r now p c"
    by (auto split: if_splits wstate.splits)
  let ?s = "shared c"
  let ?rm = "fst (afterPerformTask now r p ?s)"
  let ?s1 = "snd (afterPerformTask now r p ?s)"
  note L = invariantD(3)[OF inv]
  have ng: "workers c ! w \<noteq> Gone" using at by simp
  note nd = worker_not_gone[OF L w ng]
  have R: "registryInv c" using invariantD(1)[OF inv] nd by simp
  have wa: "workerAt c w = Running p" using w at by (simp add: workerAt_def)
  have hp: "holds (workerAt c w) p" by (simp add: wa)
  note pin = registryInvD(4)[OF R hp] and pact = registryInvD(5)[OF R hp]
  have only: "\<And>w' q. w' \<noteq> w \<Longrightarrow> owns (workerAt c w') q \<Longrightarrow> q \<noteq> p"
    using registryInvD(7)[OF R, of _ p w] wa by auto
  show ?thesis
  proof (cases ?rm)
    case True
    have c'': "c' = c\<lparr>shared := ?s1, workers := (workers c)[w := Removed p]\<rparr>"
      using True by (simp add: c' returnStep_def split_beta)
    note a = afterPerformTask_removed[OF True]
    have tk: "tasks (shared c') = remove1 p (tasks ?s)" by (simp add: c'' a)
    have ea: "entryActive (shared c') = entryActive ?s" by (simp add: c'' a)
    have wat: "\<And>w'. workerAt c' w' = (if w' = w then Removed p else workerAt c w')"
      by (rule workerAt_update) (simp_all add: c'' w)
    note d = registryInvD(1)[OF R]
    have setrm: "set (remove1 p (tasks ?s)) = set (tasks ?s) - {p}" using d by simp
    have "registryInv c'"
    proof (rule registryInvI)
      show "distinct (tasks (shared c'))" using d by (simp add: tk)
    next
      fix q
      show "entryActive (shared c') q \<noteq> None \<longleftrightarrow>
           q \<in> set (tasks (shared c')) \<or> (\<exists>w. workerAt c' w = Removed q)"
      proof (cases "q = p")
        case True
        have "workerAt c' w = Removed p" by (simp add: wat)
        then have "\<exists>w. workerAt c' w = Removed q" using True by blast
        then show ?thesis using pact True by (simp add: ea)
      next
        case False
        then have "(\<exists>w'. workerAt c' w' = Removed q) \<longleftrightarrow> (\<exists>w'. workerAt c w' = Removed q)"
          by (intro removed_same[OF wat]) (simp_all add: wa)
        then show ?thesis using registryInvD(2)[OF R, of q] False by (simp add: ea tk setrm)
      qed
    next
      fix w' q assume "workerAt c' w' = Removed q"
      then show "q \<notin> set (tasks (shared c'))"
        using registryInvD(3)[OF R, of w' q] by (auto simp: tk setrm wat split: if_splits)
    next
      fix w' q assume h: "holds (workerAt c' w') q"
      then have w'w: "w' \<noteq> w" by (auto simp: wat split: if_splits)
      with h have h0: "holds (workerAt c w') q" by (simp add: wat)
      then have "q \<noteq> p" using only[OF w'w, of q] by (simp add: owns_def)
      then show "q \<in> set (tasks (shared c')) \<and> entryActive (shared c') q = Some True"
        using registryInvD(4,5)[OF R h0] by (simp add: tk setrm ea)
    next
      fix q assume "q \<in> set (tasks (shared c'))" "entryActive (shared c') q = Some True"
      then have q: "q \<in> set (tasks ?s)" "q \<noteq> p" "entryActive ?s q = Some True"
        by (simp_all add: tk setrm ea)
      then have "\<exists>w0. holds (workerAt c w0) q" using registryInvD(6)[OF R] by blast
      then show "\<exists>w. holds (workerAt c' w) q"
        by (rule holds_other[OF wat]) (use q(2) in \<open>simp add: wa\<close>)
    next
      fix w1 w2 q assume o: "owns (workerAt c' w1) q" "owns (workerAt c' w2) q"
      show "w1 = w2"
      proof (cases "w1 = w \<or> w2 = w")
        case True
        then show ?thesis using o only[of w1 q] only[of w2 q]
          by (auto simp: wat split: if_splits)
      next
        case False
        then show ?thesis using o registryInvD(7)[OF R, of w1 q w2] by (simp add: wat)
      qed
    qed
    moreover have "ownershipInv c'"
      by (rule ownershipInv_live[OF invariantD(2)[OF inv]]) (simp_all add: c'' a)
    moreover have "lifecycleInv c'"
      unfolding c'' by (rule lifecycleInv_worker[OF L w ng]) simp_all
    moreover have "idInv c'"
      by (rule idInv_same[OF invariantD(4)[OF inv]]) (simp add: c'')
    ultimately show ?thesis by (simp add: invariant_def)
  next
    case False
    have c'': "c' = c\<lparr>shared := snd (endOfSweep ?s1), workers := (workers c)[w := AtLoopHead]\<rparr>"
      using False by (simp add: c' returnStep_def split_beta)
    have live: "entryActive ?s p \<noteq> None" using pact by simp
    note a = afterPerformTask_kept[OF False live]
    have tk: "tasks (shared c') = tasks ?s" by (simp add: c'' a)
    have ea: "entryActive (shared c') = (entryActive ?s)(p \<mapsto> False)" by (simp add: c'' a)
    have wat: "\<And>w'. workerAt c' w' = (if w' = w then AtLoopHead else workerAt c w')"
      by (rule workerAt_update) (simp_all add: c'' w)
    have "registryInv c'"
    proof (rule registryInvI)
      show "distinct (tasks (shared c'))" using registryInvD(1)[OF R] by (simp add: tk)
    next
      fix q
      have "(\<exists>w'. workerAt c' w' = Removed q) \<longleftrightarrow> (\<exists>w'. workerAt c w' = Removed q)"
        by (intro removed_same[OF wat]) (simp_all add: wa)
      then show "entryActive (shared c') q \<noteq> None \<longleftrightarrow>
           q \<in> set (tasks (shared c')) \<or> (\<exists>w. workerAt c' w = Removed q)"
        using registryInvD(2)[OF R, of q] pin by (auto simp: ea tk)
    next
      fix w' q assume "workerAt c' w' = Removed q"
      then show "q \<notin> set (tasks (shared c'))"
        using registryInvD(3)[OF R, of w' q] by (auto simp: tk wat split: if_splits)
    next
      fix w' q assume h: "holds (workerAt c' w') q"
      then have w'w: "w' \<noteq> w" by (auto simp: wat split: if_splits)
      with h have h0: "holds (workerAt c w') q" by (simp add: wat)
      then have "q \<noteq> p" using only[OF w'w, of q] by (simp add: owns_def)
      then show "q \<in> set (tasks (shared c')) \<and> entryActive (shared c') q = Some True"
        using registryInvD(4,5)[OF R h0] by (simp add: tk ea)
    next
      fix q assume "q \<in> set (tasks (shared c'))" "entryActive (shared c') q = Some True"
      then have q: "q \<in> set (tasks ?s)" "q \<noteq> p" "entryActive ?s q = Some True"
        by (auto simp: tk ea split: if_splits)
      then have "\<exists>w0. holds (workerAt c w0) q" using registryInvD(6)[OF R] by blast
      then show "\<exists>w. holds (workerAt c' w) q"
        by (rule holds_other[OF wat]) (use q(2) in \<open>simp add: wa\<close>)
    next
      fix w1 w2 q assume o: "owns (workerAt c' w1) q" "owns (workerAt c' w2) q"
      then show "w1 = w2"
        using registryInvD(7)[OF R, of w1 q w2] by (auto simp: wat split: if_splits)
    qed
    moreover have "ownershipInv c'"
    proof (rule ownershipInv_live[OF invariantD(2)[OF inv]])
      fix q show "entryActive (shared c') q = None \<longleftrightarrow> entryActive (shared c) q = None"
        using live by (simp add: ea)
    qed (simp_all add: c'')
    moreover have "lifecycleInv c'"
      unfolding c'' by (rule lifecycleInv_worker[OF L w ng]) simp_all
    moreover have "idInv c'"
      by (rule idInv_same[OF invariantD(4)[OF inv]]) (simp add: c'')
    ultimately show ?thesis by (simp add: invariant_def)
  qed
qed

lemma entryID_None_iff: "entryID s p = None \<longleftrightarrow> entryActive s p = None"
  by (simp add: entryID_def entryActive_def)

lemma step_Finish:
  assumes inv: "invariant c" and st: "step (Finish w) c = Some c'"
  shows "invariant c'"
proof -
  from st obtain p where w: "w < length (workers c)" and at: "workers c ! w = Removed p"
    and c': "c' = c\<lparr>shared := finishTask p (shared c), workers := (workers c)[w := Relocking]\<rparr>"
    by (auto split: if_splits wstate.splits)
  let ?s = "shared c"
  note L = invariantD(3)[OF inv] and O = invariantD(2)[OF inv]
  have ng: "workers c ! w \<noteq> Gone" using at by simp
  note nd = worker_not_gone[OF L w ng]
  have R: "registryInv c" using invariantD(1)[OF inv] nd by simp
  have wa: "workerAt c w = Removed p" using w at by (simp add: workerAt_def)
  have live: "entryActive ?s p \<noteq> None" using registryInvD(2)[OF R, of p] wa by blast
  have pout: "p \<notin> set (tasks ?s)" using registryInvD(3)[OF R wa] .
  have only: "\<And>w' q. w' \<noteq> w \<Longrightarrow> owns (workerAt c w') q \<Longrightarrow> q \<noteq> p"
    using registryInvD(7)[OF R, of _ p w] wa by auto
  have tk: "tasks (shared c') = tasks ?s" by (simp add: c')
  have ea: "entryActive (shared c') = (entryActive ?s)(p := None)" by (simp add: c')
  have del: "deleted (trace (shared c')) = deleted (trace ?s) @ [p]" using live by (simp add: c')
  have wat: "\<And>w'. workerAt c' w' = (if w' = w then Relocking else workerAt c w')"
    by (rule workerAt_update) (simp_all add: c' w)
  have "registryInv c'"
  proof (rule registryInvI)
    show "distinct (tasks (shared c'))" using registryInvD(1)[OF R] by (simp add: tk)
  next
    fix q
    show "entryActive (shared c') q \<noteq> None \<longleftrightarrow>
         q \<in> set (tasks (shared c')) \<or> (\<exists>w. workerAt c' w = Removed q)"
    proof (cases "q = p")
      case True
      have "\<not> (\<exists>w'. workerAt c' w' = Removed p)"
        using only[of _ p] by (auto simp: wat owns_def split: if_splits)
      then show ?thesis using True pout by (simp add: ea tk)
    next
      case False
      then have "(\<exists>w'. workerAt c' w' = Removed q) \<longleftrightarrow> (\<exists>w'. workerAt c w' = Removed q)"
        by (intro removed_same[OF wat]) (simp_all add: wa)
      then show ?thesis using registryInvD(2)[OF R, of q] False by (simp add: ea tk)
    qed
  next
    fix w' q assume "workerAt c' w' = Removed q"
    then show "q \<notin> set (tasks (shared c'))"
      using registryInvD(3)[OF R, of w' q] by (auto simp: tk wat split: if_splits)
  next
    fix w' q assume h: "holds (workerAt c' w') q"
    then have w'w: "w' \<noteq> w" by (auto simp: wat split: if_splits)
    with h have h0: "holds (workerAt c w') q" by (simp add: wat)
    then have "q \<noteq> p" using only[OF w'w, of q] by (simp add: owns_def)
    then show "q \<in> set (tasks (shared c')) \<and> entryActive (shared c') q = Some True"
      using registryInvD(4,5)[OF R h0] by (simp add: tk ea)
  next
    fix q assume "q \<in> set (tasks (shared c'))" "entryActive (shared c') q = Some True"
    then have q: "q \<in> set (tasks ?s)" "entryActive ?s q = Some True"
      by (auto simp: tk ea split: if_splits)
    then have "\<exists>w0. holds (workerAt c w0) q" using registryInvD(6)[OF R] by blast
    then show "\<exists>w. holds (workerAt c' w) q"
      by (rule holds_other[OF wat]) (simp add: wa)
  next
    fix w1 w2 q assume o: "owns (workerAt c' w1) q" "owns (workerAt c' w2) q"
    then show "w1 = w2"
      using registryInvD(7)[OF R, of w1 q w2] by (auto simp: wat split: if_splits)
  qed
  moreover have "ownershipInv c'"
    unfolding ownershipInv_def
  proof (intro conjI allI impI)
    fix q assume "entryActive (shared c') q \<noteq> None"
    then show "q \<in> set (created c')"
      using ownershipInvD(1)[OF O, of q] by (auto simp: ea c' split: if_splits)
  next
    have "p \<notin> set (deleted (trace ?s))" using ownershipInvD(3)[OF O] live by simp
    then show "distinct (deleted (trace (shared c')))"
      using ownershipInvD(2)[OF O] by (simp add: del)
  next
    have "p \<in> set (created c)" using ownershipInvD(1)[OF O live] .
    then show "set (deleted (trace (shared c'))) =
        {q \<in> set (created c'). entryActive (shared c') q = None}"
      using ownershipInvD(3)[OF O] by (auto simp: del ea c')
  qed
  moreover have "lifecycleInv c'"
    unfolding c' by (rule lifecycleInv_worker[OF L w ng]) simp_all
  moreover have "idInv c'"
    using invariantD(4)[OF inv] unfolding idInv_def
    by (auto simp: c' finishTask_entryID split: if_splits)
  ultimately show ?thesis by (simp add: invariant_def)
qed

lemma set_liveIDs:
  "set (liveIDs c) = {i. \<exists>p\<in>set (created c). entryID (shared c) p = Some i}"
  by (force simp: liveIDs_def entryID_def List.map_filter_def image_iff)

lemma step_Submit:
  assumes inv: "invariant c" and st: "step (Submit now p t) c = Some c'"
  shows "invariant c'"
proof -
  from st have al: "destructor c = Alive" and fresh: "p \<notin> set (created c)"
    and newid: "taskID t \<notin> set (liveIDs c)"
    and c': "c' = c\<lparr>shared := addTask now p t (shared c), created := p # created c\<rparr>"
    by (auto split: if_splits)
  let ?s = "shared c"
  note L = invariantD(3)[OF inv] and O = invariantD(2)[OF inv]
  have R: "registryInv c" using invariantD(1)[OF inv] al by simp
  have dead: "entryActive ?s p = None" using ownershipInvD(1)[OF O, of p] fresh by blast
  have pout: "p \<notin> set (tasks ?s)" using registryInvD(2)[OF R, of p] dead by blast
  have notowned: "\<And>w. \<not> owns (workerAt c w) p"
    using registryInvD(2)[OF R, of p] registryInvD(4)[OF R, of _ p] dead pout
    by (auto simp: owns_def)
  have tk: "tasks (shared c') = tasks ?s @ [p]" by (simp add: c')
  have ea: "entryActive (shared c') = (entryActive ?s)(p \<mapsto> False)" by (simp add: c')
  have wat: "workerAt c' = workerAt c" by (simp add: c')
  have "registryInv c'"
  proof (rule registryInvI)
    show "distinct (tasks (shared c'))" using registryInvD(1)[OF R] pout by (simp add: tk)
  next
    fix q
    show "entryActive (shared c') q \<noteq> None \<longleftrightarrow>
         q \<in> set (tasks (shared c')) \<or> (\<exists>w. workerAt c' w = Removed q)"
      using registryInvD(2)[OF R, of q] by (auto simp: ea tk wat)
  next
    fix w' q assume r: "workerAt c' w' = Removed q"
    then have "q \<noteq> p" using notowned[of w'] by (auto simp: wat owns_def)
    then show "q \<notin> set (tasks (shared c'))"
      using registryInvD(3)[OF R, of w' q] r by (simp add: tk wat)
  next
    fix w' q assume h: "holds (workerAt c' w') q"
    then have "q \<noteq> p" using notowned[of w'] by (auto simp: wat owns_def)
    then show "q \<in> set (tasks (shared c')) \<and> entryActive (shared c') q = Some True"
      using registryInvD(4,5)[OF R, of w' q] h by (simp add: tk ea wat)
  next
    fix q assume "q \<in> set (tasks (shared c'))" "entryActive (shared c') q = Some True"
    then have "q \<in> set (tasks ?s)" "entryActive ?s q = Some True"
      by (auto simp: tk ea split: if_splits)
    then show "\<exists>w. holds (workerAt c' w) q"
      using registryInvD(6)[OF R] by (simp add: wat)
  next
    fix w1 w2 q assume "owns (workerAt c' w1) q" "owns (workerAt c' w2) q"
    then show "w1 = w2" using registryInvD(7)[OF R, of w1 q w2] by (simp add: wat)
  qed
  moreover have "ownershipInv c'"
    unfolding ownershipInv_def
  proof (intro conjI allI impI)
    fix q assume "entryActive (shared c') q \<noteq> None"
    then show "q \<in> set (created c')"
      using ownershipInvD(1)[OF O, of q] by (auto simp: ea c' split: if_splits)
  next
    show "distinct (deleted (trace (shared c')))" using ownershipInvD(2)[OF O] by (simp add: c')
  next
    have "deleted (trace (shared c')) = deleted (trace ?s)" by (simp add: c')
    then show "set (deleted (trace (shared c'))) =
        {q \<in> set (created c'). entryActive (shared c') q = None}"
      using ownershipInvD(3)[OF O] fresh by (auto simp: ea c')
  qed
  moreover have "lifecycleInv c'"
    using L al unfolding lifecycleInv_def by (simp add: c' workerAt_def)
  moreover have "idInv c'"
    unfolding idInv_def
  proof (intro allI impI)
    fix q1 q2 i
    assume a: "entryID (shared c') q1 = Some i \<and> entryID (shared c') q2 = Some i"
    have other: "\<And>q. q \<noteq> p \<Longrightarrow> entryID ?s q \<noteq> Some (taskID t)"
    proof
      fix q assume "q \<noteq> p" and e: "entryID ?s q = Some (taskID t)"
      then have "entryActive ?s q \<noteq> None" using entryID_None_iff[of ?s q] by simp
      then have "q \<in> set (created c)" by (rule ownershipInvD(1)[OF O])
      with e have "taskID t \<in> set (liveIDs c)" by (auto simp: set_liveIDs)
      with newid show False by simp
    qed
    have eid: "entryID (shared c') = (entryID ?s)(p \<mapsto> taskID t)" by (simp add: c')
    show "q1 = q2"
    proof (cases "q1 = p \<or> q2 = p")
      case True
      then show ?thesis using a other[of q1] other[of q2] by (auto simp: eid split: if_splits)
    next
      case False
      then show ?thesis using a invariantD(4)[OF inv] unfolding idInv_def
        by (auto simp: eid)
    qed
  qed
  ultimately show ?thesis by (simp add: invariant_def)
qed

lemma step_Resize:
  assumes inv: "invariant c" and st: "step (Resize n) c = Some c'"
  shows "invariant c'"
proof -
  let ?s = "shared c"
  let ?k = "snd (setNumberOfTaskThreads n ?s)"
  from st have al: "destructor c = Alive"
    and c': "c' = c\<lparr>shared := fst (setNumberOfTaskThreads n ?s),
                     workers := workers c @ replicate ?k AtLoopHead\<rparr>"
    by (auto simp: split_beta split: if_splits)
  note L = invariantD(3)[OF inv]
  have R: "registryInv c" using invariantD(1)[OF inv] al by simp
  have wat: "\<And>w. workerAt c' w =
     (if w < length (workers c) then workerAt c w
      else if w < length (workers c) + ?k then AtLoopHead else Gone)"
    by (rule workerAt_append) (simp add: c')
  have beyond: "\<And>w. \<not> w < length (workers c) \<Longrightarrow> workerAt c w = Gone"
    by (simp add: workerAt_def)
  have 1: "\<And>w q. holds (workerAt c' w) q \<longleftrightarrow> holds (workerAt c w) q"
    using beyond by (simp add: wat)
  have 2: "\<And>w q. workerAt c' w = Removed q \<longleftrightarrow> workerAt c w = Removed q"
    using beyond by (simp add: wat)
  have 3: "\<And>w q. owns (workerAt c' w) q \<longleftrightarrow> owns (workerAt c w) q"
    using 1 2 by (simp add: owns_def)
  have "registryInv c'"
    using R unfolding registryInv_def by (simp add: 1 2 3) (simp add: c')
  moreover have "ownershipInv c'"
    by (rule ownershipInv_live[OF invariantD(2)[OF inv]]) (simp_all add: c')
  moreover have "lifecycleInv c'"
    using L al unfolding lifecycleInv_def by (auto simp: c' max_def)
  moreover have "idInv c'"
    by (rule idInv_same[OF invariantD(4)[OF inv]]) (simp add: c')
  ultimately show ?thesis by (simp add: invariant_def)
qed

lemma step_DestroyDelete:
  assumes inv: "invariant c" and st: "step DestroyDelete c = Some c'"
  shows "invariant c'"
proof -
  let ?s = "shared c"
  from st have j: "destructor c = Joining" and adm: "\<not> adminRunning c"
    and c': "c' = c\<lparr>shared := destructorDelete ?s, destructor := Destroyed\<rparr>"
    by (auto split: if_splits)
  note L = invariantD(3)[OF inv] and O = invariantD(2)[OF inv]
  have R: "registryInv c" using invariantD(1)[OF inv] j by simp
  have gone: "\<And>w. workerAt c w = Gone" using lifecycleInvD(3)[OF L] j by simp
  have live: "\<And>q. entryActive ?s q \<noteq> None \<longleftrightarrow> q \<in> set (tasks ?s)"
    using registryInvD(2)[OF R] gone by simp
  have dead: "\<And>q. q \<notin> set (tasks ?s) \<Longrightarrow> entryActive ?s q = None"
    using live by blast
  have ea: "entryActive (shared c') = (\<lambda>q. None)"
    by (simp add: c' destructorDelete_def deleteTasks_obs fun_eq_iff dead)
  have del: "deleted (trace (shared c')) = deleted (trace ?s) @ tasks ?s"
    by (simp add: c' destructorDelete_def deleteTasks_obs)
  have "ownershipInv c'"
    unfolding ownershipInv_def
  proof (intro conjI allI impI)
    fix q assume "entryActive (shared c') q \<noteq> None"
    then show "q \<in> set (created c')" by (simp add: ea)
  next
    have alive: "\<And>q. q \<in> set (tasks ?s) \<Longrightarrow> entryActive ?s q \<noteq> None"
      using live by blast
    have "\<And>q. q \<in> set (deleted (trace ?s)) \<Longrightarrow> q \<notin> set (tasks ?s)"
    proof
      fix q assume "q \<in> set (deleted (trace ?s))" and q: "q \<in> set (tasks ?s)"
      then have "entryActive ?s q = None" using ownershipInvD(3)[OF O] by simp
      with alive[OF q] show False by simp
    qed
    then have "set (deleted (trace ?s)) \<inter> set (tasks ?s) = {}" by blast
    then show "distinct (deleted (trace (shared c')))"
      using ownershipInvD(2)[OF O] registryInvD(1)[OF R] by (simp add: del)
  next
    have cr: "created c' = created c" by (simp add: c')
    have sub: "set (tasks ?s) \<subseteq> set (created c)"
      using ownershipInvD(1)[OF O] live by blast
    have "set (deleted (trace ?s)) \<union> set (tasks ?s) = set (created c)"
    proof (intro equalityI subsetI)
      fix q assume "q \<in> set (deleted (trace ?s)) \<union> set (tasks ?s)"
      then show "q \<in> set (created c)" using sub ownershipInvD(3)[OF O] by auto
    next
      fix q assume q: "q \<in> set (created c)"
      show "q \<in> set (deleted (trace ?s)) \<union> set (tasks ?s)"
      proof (cases "entryActive ?s q = None")
        case True
        with q show ?thesis using ownershipInvD(3)[OF O] by simp
      next
        case False
        then show ?thesis using live[of q] by simp
      qed
    qed
    then show "set (deleted (trace (shared c'))) =
        {q \<in> set (created c'). entryActive (shared c') q = None}"
      by (simp add: del ea cr)
  qed
  moreover have "lifecycleInv c'"
    using L j adm gone unfolding lifecycleInv_def
    by (simp add: ea) (simp add: c' destructorDelete_def deleteTasks_obs)
  moreover have "idInv c'"
    unfolding idInv_def using ea entryID_None_iff[of "shared c'"] by simp
  ultimately show ?thesis by (simp add: invariant_def c')
qed

lemma step_invariant:
  assumes "invariant c" and "step a c = Some c'"
  shows "invariant c'"
proof (cases a)
  case (Submit now p t)
  with assms show ?thesis using step_Submit by blast
next
  case (Cancel tid)
  with assms show ?thesis using step_Cancel by blast
next
  case (Pause tid b)
  with assms show ?thesis using step_Pause by blast
next
  case (TogglePause tid)
  with assms show ?thesis using step_TogglePause by blast
next
  case (Resize n)
  with assms show ?thesis using step_Resize by blast
next
  case (Push pushed)
  with assms show ?thesis using step_Push by blast
next
  case (TaskChanges p t)
  with assms show ?thesis using step_TaskChanges by blast
next
  case (Housekeep clock)
  with assms show ?thesis using step_Housekeep by blast
next
  case AdminLeaves
  with assms show ?thesis using step_AdminLeaves by blast
next
  case (Scan w now)
  with assms show ?thesis using step_Scan by blast
next
  case (Begin w)
  with assms show ?thesis using step_Begin by blast
next
  case (Return w r now)
  with assms show ?thesis using step_Return by blast
next
  case (Finish w)
  with assms show ?thesis using step_Finish by blast
next
  case (Relock w)
  with assms show ?thesis using step_Relock by blast
next
  case DestroyStart
  with assms show ?thesis using step_DestroyStart by blast
next
  case DestroyCancel
  with assms show ?thesis using step_DestroyCancel by blast
next
  case DestroyWorkersGone
  with assms show ?thesis using step_DestroyWorkersGone by blast
next
  case DestroyDelete
  with assms show ?thesis using step_DestroyDelete by blast
qed

lemma run_invariant: "invariant c \<Longrightarrow> run as c = Some c' \<Longrightarrow> invariant c'"
proof (induction as arbitrary: c)
  case Nil
  then show ?case by simp
next
  case (Cons a as)
  then show ?case by (auto split: option.splits dest: step_invariant)
qed

lemma addThreadsLoop_eq:
  "addThreadsLoop s k =
     (s\<lparr>numberOfActiveTaskThreads := max (numberOfActiveTaskThreads s) (numberOfTaskThreads s)\<rparr>,
      k + (numberOfTaskThreads s - numberOfActiveTaskThreads s))"
proof (induction s k rule: addThreadsLoop.induct)
  case (1 s started)
  show ?case
  proof (cases "numberOfActiveTaskThreads s < numberOfTaskThreads s")
    case True
    with 1 show ?thesis by (subst addThreadsLoop.simps) (simp add: max_def)
  next
    case False
    then show ?thesis by (subst addThreadsLoop.simps) (simp add: max_def)
  qed
qed

lemma construct_eq:
  "construct n =
     \<lparr>shared = (newPrivate n)\<lparr>numberOfActiveTaskThreads := n\<rparr>,
      workers = replicate n AtLoopHead, adminRunning = True, destructor = Alive, created = []\<rparr>"
  by (simp add: construct_def addThreads_def addThreadsLoop_eq newPrivate_def)

lemma construct_invariant: "invariant (construct n)"
  by (auto simp: construct_eq invariant_defs newPrivate_def entryActive_def entryID_def
      workerAt_def)

lemma reachable_invariant: "run as (construct n) = Some c \<Longrightarrow> invariant c"
  using run_invariant[OF construct_invariant] .


lemma workerAt_nth: "w < length (workers c) \<Longrightarrow> workerAt c w = workers c ! w"
  by (simp add: workerAt_def)

lemma entryActive_Some: "entryActive s p = Some b \<longleftrightarrow> (\<exists>td. heap s p = Some td \<and> active td = b)"
  by (auto simp: entryActive_def)

lemma entryID_Some: "entryID s p = Some i \<longleftrightarrow> (\<exists>td. heap s p = Some td \<and> taskID (task td) = i)"
  by (auto simp: entryID_def)

section \<open>Mutual exclusion per entry\<close>

lemma busyRun_result:
  "map_option (\<lambda>c. (workers c, tasks (shared c), map_option active (heap (shared c) 0),
       map_option active (heap (shared c) 1)))
     (run busyRun (construct 2))
   = Some ([Running 0, Running 1], [0, 1], Some True, Some True)"
  by code_simp

text \<open>
  Claim C4. In every configuration that a run of the threads reaches from the constructor,
  for every pool width and every resizing: two workers that are in \<^verbatim>\<open>performTask\<close> for
  entries whose tasks have the same id are the same worker; no entry is held (dispatched
  or run) by two workers; an entry that a worker holds is in the registry and has
  \<open>active = True\<close>; and, while the queue exists, an entry of the registry with
  \<open>active = True\<close> is held by a worker. The flag is written only in the steps
  \<open>Scan\<close> and \<open>Return\<close>, the two stretches of the worker's loop that hold the registry
  lock, and \<open>workerIteration\<close> decides from the flag alone whether an entry is taken.
\<close>

theorem one_worker_per_task:
  assumes "run as (construct n) = Some c"
  shows "(w1 < length (workers c) \<and> w2 < length (workers c)
          \<and> workers c ! w1 = Running p1 \<and> workers c ! w2 = Running p2
          \<and> heap (shared c) p1 = Some td1 \<and> heap (shared c) p2 = Some td2
          \<and> taskID (task td1) = taskID (task td2) \<longrightarrow> w1 = w2)
    \<and> (w1 < length (workers c) \<and> w2 < length (workers c)
          \<and> holds (workers c ! w1) p \<and> holds (workers c ! w2) p \<longrightarrow> w1 = w2)
    \<and> (w1 < length (workers c) \<and> holds (workers c ! w1) p \<longrightarrow>
          p \<in> set (tasks (shared c)) \<and> (\<exists>td. heap (shared c) p = Some td \<and> active td))
    \<and> (destructor c \<noteq> Destroyed \<and> p \<in> set (tasks (shared c)) \<and> heap (shared c) p = Some td
          \<and> active td \<longrightarrow> (\<exists>w<length (workers c). holds (workers c ! w) p))"
proof -
  note inv = reachable_invariant[OF assms]
  note L = invariantD(3)[OF inv]
  have R: "\<And>w q. w < length (workers c) \<Longrightarrow> holds (workers c ! w) q \<Longrightarrow> registryInv c"
  proof -
    fix w q assume w: "w < length (workers c)" and h: "holds (workers c ! w) q"
    then have "workers c ! w \<noteq> Gone" by (auto simp: holds_def)
    from worker_not_gone(1)[OF L w this] show "registryInv c" using invariantD(1)[OF inv] by simp
  qed
  have excl: "\<And>w1 w2 q. w1 < length (workers c) \<Longrightarrow> w2 < length (workers c) \<Longrightarrow>
      holds (workers c ! w1) q \<Longrightarrow> holds (workers c ! w2) q \<Longrightarrow> w1 = w2"
  proof -
    fix w1 w2 q assume a: "w1 < length (workers c)" "w2 < length (workers c)"
      "holds (workers c ! w1) q" "holds (workers c ! w2) q"
    then show "w1 = w2"
      using registryInvD(7)[OF R[OF a(1,3)], of w1 q w2] by (simp add: workerAt_nth owns_def)
  qed
  have 1: "w1 < length (workers c) \<and> w2 < length (workers c)
          \<and> workers c ! w1 = Running p1 \<and> workers c ! w2 = Running p2
          \<and> heap (shared c) p1 = Some td1 \<and> heap (shared c) p2 = Some td2
          \<and> taskID (task td1) = taskID (task td2) \<longrightarrow> w1 = w2"
  proof
    assume a: "w1 < length (workers c) \<and> w2 < length (workers c)
          \<and> workers c ! w1 = Running p1 \<and> workers c ! w2 = Running p2
          \<and> heap (shared c) p1 = Some td1 \<and> heap (shared c) p2 = Some td2
          \<and> taskID (task td1) = taskID (task td2)"
    then have "entryID (shared c) p1 = Some (taskID (task td1))"
      "entryID (shared c) p2 = Some (taskID (task td1))"
      by (simp_all add: entryID_def)
    then have "p1 = p2" using invariantD(4)[OF inv] unfolding idInv_def by blast
    with a show "w1 = w2" using excl[of w1 w2 p1] by simp
  qed
  have 2: "w1 < length (workers c) \<and> w2 < length (workers c)
          \<and> holds (workers c ! w1) p \<and> holds (workers c ! w2) p \<longrightarrow> w1 = w2"
    using excl by blast
  have 3: "w1 < length (workers c) \<and> holds (workers c ! w1) p \<longrightarrow>
          p \<in> set (tasks (shared c)) \<and> (\<exists>td. heap (shared c) p = Some td \<and> active td)"
  proof
    assume a: "w1 < length (workers c) \<and> holds (workers c ! w1) p"
    then have r: "registryInv c" using R by blast
    from a have "holds (workerAt c w1) p" by (simp add: workerAt_nth)
    from registryInvD(4,5)[OF r this]
    show "p \<in> set (tasks (shared c)) \<and> (\<exists>td. heap (shared c) p = Some td \<and> active td)"
      by (simp add: entryActive_Some)
  qed
  have 4: "destructor c \<noteq> Destroyed \<and> p \<in> set (tasks (shared c)) \<and> heap (shared c) p = Some td
          \<and> active td \<longrightarrow> (\<exists>w<length (workers c). holds (workers c ! w) p)"
  proof
    assume a: "destructor c \<noteq> Destroyed \<and> p \<in> set (tasks (shared c))
        \<and> heap (shared c) p = Some td \<and> active td"
    then have r: "registryInv c" using invariantD(1)[OF inv] by simp
    from a have "entryActive (shared c) p = Some True" by (simp add: entryActive_def)
    with registryInvD(6)[OF r, of p] a obtain w where "holds (workerAt c w) p" by blast
    then have "w < length (workers c) \<and> holds (workers c ! w) p"
      by (auto simp: workerAt_def split: if_splits)
    then show "\<exists>w<length (workers c). holds (workers c ! w) p" by blast
  qed
  from 1 2 3 4 show ?thesis by blast
qed

theorem one_worker_per_task_witness:
  "map_option workers (run busyRun (construct 2)) = Some [Running 0, Running 1]
   \<and> map_option (\<lambda>c. tasks (shared c)) (run busyRun (construct 2)) = Some [0, 1]
   \<and> map_option (\<lambda>c. map_option active (heap (shared c) 0)) (run busyRun (construct 2))
        = Some (Some True)
   \<and> map_option (\<lambda>c. map_option active (heap (shared c) 1)) (run busyRun (construct 2))
        = Some (Some True)"
proof -
  obtain c where c: "run busyRun (construct 2) = Some c"
    using busyRun_result by (cases "run busyRun (construct 2)") auto
  obtain td where td: "heap (shared c) 0 = Some td"
    using busyRun_result c by (cases "heap (shared c) 0") auto
  have w: "workers c = [Running 0, Running 1]" using busyRun_result c by simp
  from one_worker_per_task[OF c, of 0 0 0 0 td td 0 td] w td
  have "0 \<in> set (tasks (shared c)) \<and> (\<exists>td. heap (shared c) 0 = Some td \<and> active td)"
    by simp
  then show ?thesis using busyRun_result c by simp
qed

section \<open>Shutdown\<close>






section \<open>The status mirror follows the registry\<close>

text \<open>
  Along every run whose submissions are honest the mirror holds exactly one status per
  registered task, in registry order.  Hence the registry and the ids in the mirror are
  free of duplicates in every reachable state, which is what the removal at completion
  relies on to find the entry and the status of the task that ran.
\<close>

lemma removeTaskStatus_matches:
  "map Some (map statusTaskID tss) = map g ps \<Longrightarrow> inj_on g (set ps) \<Longrightarrow>
   p \<in> set ps \<Longrightarrow> g p = Some i \<Longrightarrow>
   map Some (map statusTaskID (removeTaskStatus i tss)) = map g (remove1 p ps)"
proof (induction tss arbitrary: ps)
  case Nil
  then show ?case by simp
next
  case (Cons ts tss)
  then obtain q qs where ps: "ps = q # qs" by (cases ps) auto
  with Cons.prems have hd: "g q = Some (statusTaskID ts)"
    and tl: "map Some (map statusTaskID tss) = map g qs" by auto
  show ?case
  proof (cases "statusTaskID ts = i")
    case True
    with hd Cons.prems(4) have "g q = g p" by simp
    with Cons.prems(2,3) ps have "q = p" by (auto dest: inj_onD)
    with True tl ps show ?thesis by simp
  next
    case False
    with hd Cons.prems(4) have qp: "q \<noteq> p" by auto
    with Cons.prems(3) ps have pin: "p \<in> set qs" by simp
    from Cons.prems(2) ps have inj: "inj_on g (set qs)" by (simp add: inj_on_def)
    from Cons.IH[OF tl inj pin Cons.prems(4)] False qp hd ps show ?thesis by simp
  qed
qed

lemma mirror_obs [simp]:
  "taskStatuses (cancelTaskLoop tid ps s) = taskStatuses s"
  "taskStatuses (pauseTaskLoop tid b ps s) = taskStatuses s"
  "taskStatuses (togglePauseTaskLoop tid ps s) = taskStatuses s"
  "taskStatuses (fst (setNumberOfTaskThreads n s)) = taskStatuses s"
  "taskStatuses (snd (workerIteration now s)) = taskStatuses s"
  "taskStatuses (beginPerformTask p s) = taskStatuses s"
  "taskStatuses (snd (endOfSweep s)) = taskStatuses s"
  "taskStatuses (setFinish s) = taskStatuses s"
  "taskStatuses (cancelTasks ps s) = taskStatuses s"
  "map statusTaskID (taskStatuses (statusChangedCallback pushed s)) = map statusTaskID (taskStatuses s)"
  "map statusTaskID (taskStatuses (updateWaitingMessages clock s)) = map statusTaskID (taskStatuses s)"
proof -
  show "taskStatuses (cancelTaskLoop tid ps s) = taskStatuses s"
    by (induction ps) (simp_all split: option.splits)
  show "taskStatuses (pauseTaskLoop tid b ps s) = taskStatuses s"
    by (induction ps) (simp_all split: option.splits)
  show "taskStatuses (togglePauseTaskLoop tid ps s) = taskStatuses s"
    by (induction ps) (simp_all split: option.splits)
  show "taskStatuses (fst (setNumberOfTaskThreads n s)) = taskStatuses s"
    by (simp add: setNumberOfTaskThreads_def addThreads_def addThreadsLoop_eq split_beta)
  show "taskStatuses (snd (workerIteration now s)) = taskStatuses s"
    by (simp add: workerIteration_def Let_def leaveLoop_def endOfSweep_def split: option.splits)
  show "taskStatuses (beginPerformTask p s) = taskStatuses s"
    by (simp add: beginPerformTask_def)
  show "taskStatuses (snd (endOfSweep s)) = taskStatuses s"
    by (simp add: endOfSweep_def Let_def)
  show "taskStatuses (setFinish s) = taskStatuses s"
    by (simp add: setFinish_def)
  show "taskStatuses (cancelTasks ps s) = taskStatuses s"
    by (induction ps arbitrary: s) simp_all
  show "map statusTaskID (taskStatuses (statusChangedCallback pushed s)) = map statusTaskID (taskStatuses s)"
    by (simp add: statusChangedCallback_def taskStatusChanged_def)
  show "map statusTaskID (taskStatuses (updateWaitingMessages clock s)) = map statusTaskID (taskStatuses s)"
    by (simp add: updateWaitingMessages_unfold taskStatusChanged_def)
qed

lemma afterPerformTask_mirror:
  "fst (afterPerformTask now r p s) \<Longrightarrow> entryID s p = Some i \<Longrightarrow>
   taskStatuses (snd (afterPerformTask now r p s)) = removeTaskStatus i (taskStatuses s)"
  "\<not> fst (afterPerformTask now r p s) \<Longrightarrow>
   taskStatuses (snd (afterPerformTask now r p s)) = taskStatuses s"
  by (auto simp: afterPerformTask_def Let_def entryID_def split: option.splits if_splits)

lemma finishTask_mirror [simp]: "taskStatuses (finishTask p s) = taskStatuses s"
  by (simp add: finishTask_def Let_def split: option.splits)

lemma mirrorInv_same:
  assumes "mirrorInv c"
    and "map statusTaskID (taskStatuses (shared c')) = map statusTaskID (taskStatuses (shared c))"
    and "entryID (shared c') = entryID (shared c)" and "tasks (shared c') = tasks (shared c)"
    and "destructor c' = destructor c"
  shows "mirrorInv c'"
  using assms unfolding mirrorInv_def by simp

lemma step_mirrorInv:
  assumes inv: "invariant c" and m: "mirrorInv c" and h: "honest a" and st: "step a c = Some c'"
  shows "mirrorInv c'"
proof (cases a)
  case (Submit now p t)
  with st have al: "destructor c = Alive" and fresh: "p \<notin> set (created c)"
    and c': "c' = c\<lparr>shared := addTask now p t (shared c), created := p # created c\<rparr>"
    by (auto split: if_splits)
  have R: "registryInv c" using invariantD(1)[OF inv] al by simp
  have "entryActive (shared c) p = None"
    using ownershipInvD(1)[OF invariantD(2)[OF inv], of p] fresh by blast
  then have pout: "p \<notin> set (tasks (shared c))" using registryInvD(2)[OF R, of p] by blast
  then have same: "map ((entryID (shared c))(p \<mapsto> taskID t)) (tasks (shared c))
      = map (entryID (shared c)) (tasks (shared c))" by (auto intro: map_cong)
  have mm: "map Some (map statusTaskID (taskStatuses (shared c)))
      = map (entryID (shared c)) (tasks (shared c))"
    using m al unfolding mirrorInv_def by simp
  have ts: "taskStatuses (addTask now p t (shared c)) = taskStatuses (shared c) @ [taskStatus t]"
    by (simp add: addTask_def Let_def taskStatusChanged_def emit_def)
  from h Submit have ht: "statusTaskID (taskStatus t) = taskID t" by simp
  have "map Some (map statusTaskID (taskStatuses (shared c) @ [taskStatus t]))
      = map ((entryID (shared c))(p \<mapsto> taskID t)) (tasks (shared c) @ [p])"
    using mm same ht by simp
  then show ?thesis
    unfolding mirrorInv_def by (simp add: c' ts)
next
  case (Cancel tid)
  with st m show ?thesis
    by (auto simp: cancelTask_def split: if_splits intro!: mirrorInv_same[OF m])
next
  case (Pause tid b)
  with st m show ?thesis
    by (auto simp: pauseTask_def split: if_splits intro!: mirrorInv_same[OF m])
next
  case (TogglePause tid)
  with st m show ?thesis
    by (auto simp: togglePauseTask_def split: if_splits intro!: mirrorInv_same[OF m])
next
  case (Resize n)
  with st m show ?thesis
    by (auto simp: split_beta split: if_splits intro!: mirrorInv_same[OF m])
next
  case (Push pushed)
  with st m show ?thesis
    by (auto split: if_splits intro!: mirrorInv_same[OF m])
next
  case (TaskChanges p t)
  with st m show ?thesis
    by (auto simp: entry_same_upd split: option.splits if_splits intro!: mirrorInv_same[OF m])
next
  case (Housekeep clock)
  with st m show ?thesis
    by (auto split: if_splits intro!: mirrorInv_same[OF m])
next
  case AdminLeaves
  with st m show ?thesis
    by (auto split: if_splits intro!: mirrorInv_same[OF m])
next
  case (Scan w now)
  with st m show ?thesis
    by (auto simp: scanStep_def split_beta split: if_splits intro!: mirrorInv_same[OF m])
next
  case (Begin w)
  with st m show ?thesis
    by (auto split: if_splits wstate.splits intro!: mirrorInv_same[OF m])
next
  case (Return w r now)
  with st obtain p where w: "w < length (workers c)" and at: "workers c ! w = Running p"
    and c': "c' = returnStep w r now p c"
    by (auto split: if_splits wstate.splits)
  let ?s = "shared c"
  note L = invariantD(3)[OF inv]
  have ng: "workers c ! w \<noteq> Gone" using at by simp
  note nd = worker_not_gone[OF L w ng]
  have R: "registryInv c" using invariantD(1)[OF inv] nd by simp
  have hp: "holds (workerAt c w) p" using w at by (simp add: workerAt_def)
  note pin = registryInvD(4)[OF R hp] and pact = registryInvD(5)[OF R hp]
  from pact obtain i where i: "entryID ?s p = Some i"
    by (auto simp: entryActive_def entryID_def)
  have mm: "map Some (map statusTaskID (taskStatuses ?s)) = map (entryID ?s) (tasks ?s)"
    using m nd unfolding mirrorInv_def by simp
  show ?thesis
  proof (cases "fst (afterPerformTask now r p ?s)")
    case True
    have live: "\<And>q. q \<in> set (tasks ?s) \<Longrightarrow> entryID ?s q \<noteq> None"
      using registryInvD(2)[OF R] entryID_None_iff[of ?s] by blast
    have inj: "inj_on (entryID ?s) (set (tasks ?s))"
    proof (rule inj_onI)
      fix x y assume "x \<in> set (tasks ?s)" "y \<in> set (tasks ?s)" "entryID ?s x = entryID ?s y"
      then show "x = y" using live[of x] invariantD(4)[OF inv] unfolding idInv_def by auto
    qed
    from removeTaskStatus_matches[OF mm inj pin i]
    show ?thesis
      using True nd unfolding mirrorInv_def
      by (simp add: c' returnStep_def split_beta afterPerformTask_mirror(1)[OF True i]
          afterPerformTask_removed[OF True])
  next
    case False
    have "entryActive ?s p \<noteq> None" using pact by simp
    from afterPerformTask_kept(1)[OF False this] mm
    show ?thesis
      using False nd unfolding mirrorInv_def
      by (simp add: c' returnStep_def split_beta afterPerformTask_mirror(2)[OF False])
  qed
next
  case (Finish w)
  with st obtain p where w: "w < length (workers c)" and at: "workers c ! w = Removed p"
    and c': "c' = c\<lparr>shared := finishTask p (shared c), workers := (workers c)[w := Relocking]\<rparr>"
    by (auto split: if_splits wstate.splits)
  note L = invariantD(3)[OF inv]
  have ng: "workers c ! w \<noteq> Gone" using at by simp
  note nd = worker_not_gone[OF L w ng]
  have R: "registryInv c" using invariantD(1)[OF inv] nd by simp
  have "workerAt c w = Removed p" using w at by (simp add: workerAt_def)
  then have pout: "p \<notin> set (tasks (shared c))" by (rule registryInvD(3)[OF R])
  then have "map ((entryID (shared c))(p := None)) (tasks (shared c))
      = map (entryID (shared c)) (tasks (shared c))" by (auto intro: map_cong)
  then show ?thesis
    using m nd unfolding mirrorInv_def by (simp add: c' finishTask_entryID)
next
  case (Relock w)
  with st m show ?thesis
    by (auto split: if_splits intro!: mirrorInv_same[OF m])
next
  case DestroyStart
  with st m show ?thesis
    by (auto simp: mirrorInv_def split: if_splits)
next
  case DestroyCancel
  with st m show ?thesis
    by (auto simp: mirrorInv_def destructorCancel_def split: if_splits)
next
  case DestroyWorkersGone
  with st m show ?thesis
    by (auto simp: mirrorInv_def split: if_splits)
next
  case DestroyDelete
  with st show ?thesis
    by (auto simp: mirrorInv_def split: if_splits)
qed

lemma run_mirrorInv:
  "invariant c \<Longrightarrow> mirrorInv c \<Longrightarrow> list_all honest as \<Longrightarrow> run as c = Some c' \<Longrightarrow> mirrorInv c'"
proof (induction as arbitrary: c)
  case Nil
  then show ?case by simp
next
  case (Cons a as)
  from Cons.prems(4) obtain c1 where c1: "step a c = Some c1" "run as c1 = Some c'"
    by (auto split: option.splits)
  from Cons.prems(3) have h: "honest a" "list_all honest as" by simp_all
  show ?case
    by (rule Cons.IH[OF step_invariant[OF Cons.prems(1) c1(1)]
          step_mirrorInv[OF Cons.prems(1,2) h(1) c1(1)] h(2) c1(2)])
qed

lemma reachable_mirror:
  assumes "run as (construct n) = Some c" and "list_all honest as"
    and "destructor c \<noteq> Destroyed"
  shows "map Some (map statusTaskID (taskStatuses (shared c)))
           = map (entryID (shared c)) (tasks (shared c))"
    and "distinct (tasks (shared c))"
    and "distinct (map statusTaskID (taskStatuses (shared c)))"
proof -
  have "mirrorInv (construct n)" by (simp add: mirrorInv_def construct_eq newPrivate_def)
  from run_mirrorInv[OF construct_invariant this assms(2,1)] assms(3)
  show mm: "map Some (map statusTaskID (taskStatuses (shared c)))
           = map (entryID (shared c)) (tasks (shared c))"
    by (simp add: mirrorInv_def)
  note inv = reachable_invariant[OF assms(1)]
  have R: "registryInv c" using invariantD(1)[OF inv] assms(3) by simp
  show d: "distinct (tasks (shared c))" by (rule registryInvD(1)[OF R])
  have live: "\<And>q. q \<in> set (tasks (shared c)) \<Longrightarrow> entryID (shared c) q \<noteq> None"
    using registryInvD(2)[OF R] entryID_None_iff[of "shared c"] by blast
  have inj: "inj_on (entryID (shared c)) (set (tasks (shared c)))"
  proof (rule inj_onI)
    fix x y assume "x \<in> set (tasks (shared c))" "y \<in> set (tasks (shared c))"
      "entryID (shared c) x = entryID (shared c) y"
    then show "x = y" using live[of x] invariantD(4)[OF inv] unfolding idInv_def by auto
  qed
  have "distinct (map (entryID (shared c)) (tasks (shared c)))"
    using d inj by (simp add: distinct_map)
  then have "distinct (map Some (map statusTaskID (taskStatuses (shared c))))"
    by (simp only: mm)
  then show "distinct (map statusTaskID (taskStatuses (shared c)))"
    by (rule distinct_map[THEN iffD1, THEN conjunct1])
qed

section \<open>Dispatch sweeps of the threads together: what a worker does\<close>

lemma filter_isWait_simps [simp]:
  "filter isWait (map CancelTask ps) = []"
  by (induction ps) auto

lemma addTask_sweep [simp]:
  "workDone (addTask now p t s) = workDone s"
  "waitFor (addTask now p t s) = waitFor s"
  "filter isWait (trace (addTask now p t s)) = filter isWait (trace s)"
  by (simp_all add: addTask_def Let_def taskStatusChanged_def emit_def)

lemma cancelTaskLoop_sweep [simp]:
  "workDone (cancelTaskLoop tid ps s) = workDone s"
  "waitFor (cancelTaskLoop tid ps s) = waitFor s"
  "filter isWait (trace (cancelTaskLoop tid ps s)) = filter isWait (trace s)"
  by (induction ps; simp split: option.splits)+

lemma pauseTaskLoop_sweep [simp]:
  "workDone (pauseTaskLoop tid b ps s) = workDone s"
  "waitFor (pauseTaskLoop tid b ps s) = waitFor s"
  "filter isWait (trace (pauseTaskLoop tid b ps s)) = filter isWait (trace s)"
  by (induction ps; simp split: option.splits)+

lemma togglePauseTaskLoop_sweep [simp]:
  "workDone (togglePauseTaskLoop tid ps s) = workDone s"
  "waitFor (togglePauseTaskLoop tid ps s) = waitFor s"
  "filter isWait (trace (togglePauseTaskLoop tid ps s)) = filter isWait (trace s)"
  by (induction ps; simp split: option.splits)+

lemma statusChangedCallback_sweep [simp]:
  "workDone (statusChangedCallback pushed s) = workDone s"
  "waitFor (statusChangedCallback pushed s) = waitFor s"
  "filter isWait (trace (statusChangedCallback pushed s)) = filter isWait (trace s)"
  by (simp_all add: statusChangedCallback_def taskStatusChanged_def)

lemma updateWaitingMessages_sweep [simp]:
  "workDone (updateWaitingMessages clock s) = workDone s"
  "waitFor (updateWaitingMessages clock s) = waitFor s"
  "filter isWait (trace (updateWaitingMessages clock s)) = filter isWait (trace s)"
  by (simp_all add: updateWaitingMessages_unfold taskStatusChanged_def)

lemma addThreadsLoop_sweep:
  "workDone (fst (addThreadsLoop s k)) = workDone s
   \<and> waitFor (fst (addThreadsLoop s k)) = waitFor s"
proof (induction s k rule: addThreadsLoop.induct)
  case (1 s started)
  show ?case
  proof (cases "numberOfActiveTaskThreads s < numberOfTaskThreads s")
    case True
    with 1 show ?thesis by (subst (1 2) addThreadsLoop.simps) auto
  next
    case False
    then show ?thesis by (subst (1 2) addThreadsLoop.simps) auto
  qed
qed

lemma setNumberOfTaskThreads_sweep [simp]:
  "workDone (fst (setNumberOfTaskThreads n s)) = workDone s"
  "waitFor (fst (setNumberOfTaskThreads n s)) = waitFor s"
  "filter isWait (trace (fst (setNumberOfTaskThreads n s))) = filter isWait (trace s)"
  using addThreadsLoop_sweep[of "s\<lparr>numberOfTaskThreads := n\<rparr>" 0]
    addThreadsLoop_obs[of "s\<lparr>numberOfTaskThreads := n\<rparr>" 0]
  by (simp_all add: setNumberOfTaskThreads_def addThreads_def split_beta)

lemma beginPerformTask_sweep [simp]:
  "workDone (beginPerformTask p s)"
  "waitFor (beginPerformTask p s) = waitFor s"
  "filter isWait (trace (beginPerformTask p s)) = filter isWait (trace s)"
  by (simp_all add: beginPerformTask_def)

lemma finishTask_sweep [simp]:
  "filter isWait (trace (finishTask p s)) = filter isWait (trace s)"
  by (simp add: finishTask_def Let_def split: option.splits)

lemma cancelTasks_sweep [simp]:
  "workDone (cancelTasks ps s) = workDone s"
  "waitFor (cancelTasks ps s) = waitFor s"
  by (induction ps arbitrary: s; simp)+

lemma destructor_sweep [simp]:
  "workDone (setFinish s) = workDone s"
  "waitFor (setFinish s) = waitFor s"
  "workDone (destructorCancel s) = workDone s"
  "waitFor (destructorCancel s) = waitFor s"
  "filter isWait (trace (destructorCancel s)) = filter isWait (trace s)"
  by (simp_all add: setFinish_def destructorCancel_def)

lemma deleteTasks_sweep [simp]:
  "workDone (deleteTasks ps s) = workDone s"
  "waitFor (deleteTasks ps s) = waitFor s"
  "filter isWait (trace (deleteTasks ps s)) = filter isWait (trace s)"
  by (induction ps arbitrary: s; simp)+


lemma leaveLoop_sweep [simp]:
  "workDone (leaveLoop s) = workDone s"
  "waitFor (leaveLoop s) = waitFor s"
  "filter isWait (trace (leaveLoop s)) = filter isWait (trace s)"
  by (simp_all add: leaveLoop_def)










end
